theory Spec2Isabelle
  imports Complex_Main "HOL-Library.Word" "HOL-Library.Signed_Division"
begin

section \<open>Platform-independent font management of the FreeType text renderer\<close>

text \<open>
  A shallow embedding of \<^verbatim>\<open>modules/text_renderer/freetype/platform_fonts.c\<close>.

  Conventions of the embedding.
  \<^item> A C string is the list of its characters before the terminating NUL; a pointer
    that may be \<^verbatim>\<open>NULL\<close> is an \<open>option\<close>.
  \<^item> The \<^verbatim>\<open>NULL\<close>-terminated singly linked lists of \<^verbatim>\<open>vlc_font_t\<close> and
    \<^verbatim>\<open>vlc_family_t\<close> (linked by \<^verbatim>\<open>p_next\<close>) are lists of addresses; the empty
    list is the \<^verbatim>\<open>NULL\<close> head. The objects themselves live in a store that maps
    an address to the object, so that an object reached from two lists is one object.
    The code makes families share fonts (\<^verbatim>\<open>p_fallback->p_fonts = p_temp->p_fonts\<close> in
    \<^verbatim>\<open>SearchFallbacks\<close> and \<^verbatim>\<open>InitDefaultList\<close>): the two lists are then the same
    list of addresses. Since a font has one \<^verbatim>\<open>p_next\<close>, two lists that hold the same
    font go on in the same way after it; \<open>AppendFont\<close>, the one function that writes
    the \<^verbatim>\<open>p_next\<close> of a font that is already in a list, changes every list that ends
    with that font. \<open>AppendFont\<close> and \<open>NewFont\<close> are also given on the pointers, and
    the functions on the lists are proved to do the same.
  \<^item> A value of the C type \<^verbatim>\<open>int\<close> is an \<open>int\<close>, and \<^verbatim>\<open>int\<close> has 32 bits: where
    the code multiplies (lines 66 and 484) the product is reduced to the 32 bits in two's
    complement (\<open>wrap_int\<close>), which is what the compiled code does with the overflow
    that the C standard leaves undefined. Division is C's, truncating towards zero
    (\<open>sdiv\<close>). The sums of the scores of \<^verbatim>\<open>GetBestFont\<close> are at most 1110.
  \<^item> A value of the C type \<^verbatim>\<open>float\<close> is the real number it stands for. The file
    computes with \<^verbatim>\<open>float\<close> in one expression only (line 480); its value, with the
    rounding and the conversion to \<^verbatim>\<open>int\<close> of the platform, is a parameter.
  \<^item> Memory allocation (\<^verbatim>\<open>calloc\<close>, \<^verbatim>\<open>strdup\<close>, \<^verbatim>\<open>asprintf\<close>) succeeds unless
    a function takes the allocation's result as an argument; logging has no effect.
  \<^item> The font engine, the platform's family lookup and the constants of headers that
    are not part of this file are parameters, collected in the record \<open>env\<close>.
\<close>

subsection \<open>Data model\<close>

type_synonym uni_char_t = "32 word"
type_synonym FT_Face = nat
type_synonym FT_Stream = nat
type_synonym font_ptr = nat
type_synonym family_ptr = nat

datatype style_flag =
  STYLE_BOLD | STYLE_ITALIC | STYLE_MONOSPACED | STYLE_HALFWIDTH | STYLE_DOUBLEWIDTH

text \<open>The fields of \<^verbatim>\<open>text_style_t\<close> this file reads. \<open>i_style_flags\<close> is the set
  of the flag bits that are set.\<close>

record text_style_t =
  psz_fontname :: "string option"
  psz_monofontname :: "string option"
  i_style_flags :: "style_flag set"
  i_font_size :: int
  f_font_relsize :: real

record vlc_font_t =
  psz_fontfile :: string
  i_index :: int
  b_bold :: bool
  b_italic :: bool
  p_face :: "FT_Face option"

record vlc_family_t =
  psz_name :: string
  p_fonts :: "font_ptr list"

record input_attachment_t =
  p_data :: "8 word list"

text \<open>\<^verbatim>\<open>filter_sys_t\<close>: the font library handle (its state is the type \<open>'l\<close>), the two
  dictionaries, the font attachments, the scale and the default style.\<close>

record 'l filter_sys_t =
  p_library :: 'l
  face_map :: "string \<rightharpoonup> FT_Face"
  fallback_map :: "string \<rightharpoonup> family_ptr list"
  pp_font_attachments :: "input_attachment_t list"
  i_scale :: int
  p_default_style :: text_style_t

text \<open>The program state: the filter (\<^verbatim>\<open>p_filter->fmt_out.video.i_height\<close> and
  \<^verbatim>\<open>p_filter->p_sys\<close>) and the store of font and family objects.\<close>

record 'l prog_state =
  fmt_out_video_i_height :: int
  p_sys :: "'l filter_sys_t"
  font_at :: "font_ptr \<Rightarrow> vlc_font_t"
  family_at :: "family_ptr \<Rightarrow> vlc_family_t"

text \<open>The collaborators. A FreeType call that fails leaves the face pointer
  \<^verbatim>\<open>NULL\<close> (\<open>None\<close>); \<open>FT_Select_Charmap\<close> and \<open>FT_Set_Pixel_Sizes\<close> return
  \<open>True\<close> for a non-zero error code. Every call that opens or changes a face takes
  and returns the library's state. \<open>WIN32\<close> is the preprocessor's \<^verbatim>\<open>_WIN32\<close>.
  \<open>pf_get_family\<close> and \<open>pf_get_fallbacks\<close> are the function pointers of
  \<^verbatim>\<open>filter_sys_t\<close>; \<open>pf_get_fallbacks\<close> may be \<^verbatim>\<open>NULL\<close>.
  \<open>float_live_size h r\<close> is the \<^verbatim>\<open>int\<close> that the assignment of line 480 stores, the
  value of \<^verbatim>\<open>(int) i_height * f_font_relsize / 100\<close> computed in \<^verbatim>\<open>float\<close> for the
  height \<open>h\<close> and the relative size \<open>r\<close>.\<close>

record 'l env =
  FT_New_Face :: "'l \<Rightarrow> string \<Rightarrow> int \<Rightarrow> FT_Face option \<times> 'l"
  FT_New_Memory_Face :: "'l \<Rightarrow> 8 word list \<Rightarrow> int \<Rightarrow> FT_Face option \<times> 'l"
  FT_Open_Face :: "'l \<Rightarrow> FT_Stream \<Rightarrow> int \<Rightarrow> FT_Face option \<times> 'l"
  FT_Select_Charmap :: "'l \<Rightarrow> FT_Face \<Rightarrow> bool \<times> 'l"
  FT_Set_Pixel_Sizes :: "'l \<Rightarrow> FT_Face \<Rightarrow> int \<Rightarrow> int \<Rightarrow> bool \<times> 'l"
  FT_Done_Face :: "'l \<Rightarrow> FT_Face \<Rightarrow> 'l"
  FT_Get_Char_Index :: "FT_Face \<Rightarrow> uni_char_t \<Rightarrow> nat"
  WIN32 :: bool
  DWrite_GetFontStream :: "int \<Rightarrow> FT_Stream option"
  STYLE_DEFAULT_FONT_SIZE :: int
  float_live_size :: "int \<Rightarrow> real \<Rightarrow> int"
  DEFAULT_FAMILY :: string
  pf_get_family :: "string \<Rightarrow> 'l prog_state \<Rightarrow> family_ptr option \<times> 'l prog_state"
  pf_get_fallbacks ::
    "(string \<Rightarrow> uni_char_t \<Rightarrow> 'l prog_state \<Rightarrow> family_ptr list \<times> 'l prog_state) option"

subsection \<open>Functions of the C library\<close>

text \<open>\<^verbatim>\<open>printf\<close>'s \<^verbatim>\<open>%d\<close>: the decimal digits, with a minus sign before a negative
  number.\<close>

definition digit_char :: "nat \<Rightarrow> char" where
  "digit_char d = ''0123456789'' ! d"

fun dec_nat :: "nat \<Rightarrow> string" where
  "dec_nat n = (if n < 10 then [digit_char n] else dec_nat (n div 10) @ [digit_char (n mod 10)])"

declare dec_nat.simps [simp del]

definition show_int :: "int \<Rightarrow> string" where
  "show_int i = (if i < 0 then CHR ''-'' # dec_nat (nat (- i)) else dec_nat (nat i))"

text \<open>\<^verbatim>\<open>atoi\<close>: white space, an optional sign, then the digits up to the first
  character that is not one. (For digits whose number does not fit an \<^verbatim>\<open>int\<close> the C
  library leaves the result open; the model gives the number.)\<close>

definition isspace :: "char \<Rightarrow> bool" where
  "isspace c = (c \<in> {CHR '' '', CHR 0x09, CHR 0x0A, CHR 0x0B, CHR 0x0C, CHR 0x0D})"

definition isdigit :: "char \<Rightarrow> bool" where
  "isdigit c = (c \<in> set ''0123456789'')"

fun atoi_digits :: "int \<Rightarrow> string \<Rightarrow> int" where
  "atoi_digits acc [] = acc"
| "atoi_digits acc (c # cs) =
     (if isdigit c then atoi_digits (10 * acc + (of_char c - 48)) cs else acc)"

definition atoi :: "string \<Rightarrow> int" where
  "atoi s =
     (case dropWhile isspace s of
        [] \<Rightarrow> 0
      | c # r \<Rightarrow>
          if c = CHR ''-'' then - atoi_digits 0 r
          else if c = CHR ''+'' then atoi_digits 0 r
          else atoi_digits 0 (c # r))"

text \<open>\<^verbatim>\<open>tolower\<close> in the C locale, and \<^verbatim>\<open>!strcasecmp(a, b)\<close>.\<close>

definition tolower :: "char \<Rightarrow> char" where
  "tolower c =
     (case map_of (zip ''ABCDEFGHIJKLMNOPQRSTUVWXYZ'' ''abcdefghijklmnopqrstuvwxyz'') c of
        None \<Rightarrow> c
      | Some l \<Rightarrow> l)"

definition strcasecmp_eq :: "string \<Rightarrow> string \<Rightarrow> bool" where
  "strcasecmp_eq a b = (map tolower a = map tolower b)"

text \<open>\<^verbatim>\<open>strtok_r\<close>: the argument is the text the save pointer points to. It skips the
  delimiters, returns \<^verbatim>\<open>NULL\<close> at the end of the text, and otherwise returns the token
  up to the next delimiter with the text after that delimiter as the new save pointer.\<close>

definition strtok_r :: "string \<Rightarrow> string \<Rightarrow> (string \<times> string) option" where
  "strtok_r save delim =
     (let s1 = dropWhile (\<lambda>c. c \<in> set delim) save
      in if s1 = [] then None
         else Some (takeWhile (\<lambda>c. c \<notin> set delim) s1,
                    drop 1 (dropWhile (\<lambda>c. c \<notin> set delim) s1)))"

text \<open>\<^verbatim>\<open>vlc_dictionary_value_for_key\<close> on the fallback map: a key that is absent gives
  \<^verbatim>\<open>NULL\<close>, the empty list.\<close>

definition fallbacks_for_key :: "(string \<rightharpoonup> family_ptr list) \<Rightarrow> string \<Rightarrow> family_ptr list" where
  "fallbacks_for_key dict k = (case dict k of None \<Rightarrow> [] | Some p_fallbacks \<Rightarrow> p_fallbacks)"

text \<open>Modelled from the spec: the macros \<^verbatim>\<open>FB_LIST_ATTACHMENTS\<close> and
  \<^verbatim>\<open>FB_LIST_DEFAULT\<close> of \<^verbatim>\<open>platform_fonts.h\<close>, the keys the spec calls
  "attachments" and "default".\<close>

definition FB_LIST_ATTACHMENTS :: string where
  "FB_LIST_ATTACHMENTS = ''attachments''"

definition FB_LIST_DEFAULT :: string where
  "FB_LIST_DEFAULT = ''default''"

subsection \<open>Face loading: the live size\<close>

text \<open>The 32 bits of an integer read as a signed number: the value of an
  \<^verbatim>\<open>int\<close> product that does not fit.\<close>

definition wrap_int :: "int \<Rightarrow> int" where
  "wrap_int x = (x + 2147483648) mod 4294967296 - 2147483648"

text \<open>In \<open>ConvertToLiveSize\<close> the macro \<^verbatim>\<open>STYLE_DEFAULT_FONT_SIZE\<close> of
  \<^verbatim>\<open>vlc_text_style.h\<close> is the parameter of that name, and \<open>size0\<close> is
  \<^verbatim>\<open>i_font_size\<close> before the scale is applied.\<close>

definition ConvertToLiveSize :: "'l env \<Rightarrow> 'l prog_state \<Rightarrow> text_style_t \<Rightarrow> int" where
  "ConvertToLiveSize E p_filter p_style =
     (let size0 =
        (if i_font_size p_style \<noteq> 0 then i_font_size p_style
         else if f_font_relsize p_style \<noteq> 0
           then float_live_size E (fmt_out_video_i_height p_filter) (f_font_relsize p_style)
         else STYLE_DEFAULT_FONT_SIZE E)
      in if i_scale (p_sys p_filter) \<noteq> 100
         then wrap_int (size0 * i_scale (p_sys p_filter)) sdiv 100
         else size0)"

subsection \<open>LoadFace\<close>

text \<open>The key of the face dictionary, \<^verbatim>\<open>"%s - %d - %d - %d"\<close>.\<close>

definition face_key :: "string \<Rightarrow> int \<Rightarrow> int \<Rightarrow> int \<Rightarrow> string" where
  "face_key fontfile i_idx font_size font_width =
     fontfile @ '' - '' @ show_int i_idx @ '' - '' @ show_int font_size
       @ '' - '' @ show_int font_width"

definition live_width :: "text_style_t \<Rightarrow> int \<Rightarrow> int" where
  "live_width p_style font_size =
     (if STYLE_HALFWIDTH \<in> i_style_flags p_style then font_size sdiv 2
      else if STYLE_DOUBLEWIDTH \<in> i_style_flags p_style then wrap_int (font_size * 2)
      else font_size)"

text \<open>The three kinds of source (lines 73 to 107): an attachment \<^verbatim>\<open>:/N\<close>, on Windows a
  DirectWrite stream \<^verbatim>\<open>:dw/N\<close>, and a file.\<close>

definition open_source ::
  "'l env \<Rightarrow> 'l filter_sys_t \<Rightarrow> string \<Rightarrow> int \<Rightarrow> FT_Face option \<times> 'l" where
  "open_source E sys fontfile i_idx =
     (if take 2 fontfile = '':/'' then
        (let i_attach = atoi (drop 2 fontfile)
         in if i_attach < 0 \<or> i_attach \<ge> int (length (pp_font_attachments sys))
            then (None, p_library sys)
            else FT_New_Memory_Face E (p_library sys)
                   (p_data (pp_font_attachments sys ! nat i_attach)) i_idx)
      else if WIN32 E \<and> take 4 fontfile = '':dw/'' then
        (case DWrite_GetFontStream E (atoi (drop 4 fontfile)) of
           None \<Rightarrow> (None, p_library sys)
         | Some p_stream \<Rightarrow> FT_Open_Face E (p_library sys) p_stream i_idx)
      else FT_New_Face E (p_library sys) fontfile i_idx)"

definition set_library :: "'l prog_state \<Rightarrow> 'l \<Rightarrow> 'l prog_state" where
  "set_library p_filter lib = p_filter\<lparr>p_sys := (p_sys p_filter)\<lparr>p_library := lib\<rparr>\<rparr>"

definition LoadFace ::
  "'l env \<Rightarrow> 'l prog_state \<Rightarrow> string \<Rightarrow> int \<Rightarrow> text_style_t
     \<Rightarrow> FT_Face option \<times> 'l prog_state" where
  "LoadFace E p_filter fontfile i_idx p_style =
     (let font_size = ConvertToLiveSize E p_filter p_style;
          font_width = live_width p_style font_size;
          psz_key = face_key fontfile i_idx font_size font_width
      in case face_map (p_sys p_filter) psz_key of
           Some face \<Rightarrow> (Some face, p_filter)
         | None \<Rightarrow>
            (case open_source E (p_sys p_filter) fontfile i_idx of
               (None, lib1) \<Rightarrow> (None, set_library p_filter lib1)
             | (Some face, lib1) \<Rightarrow>
                (case FT_Select_Charmap E lib1 face of
                   (charmap_err, lib2) \<Rightarrow>
                     if charmap_err then (None, set_library p_filter (FT_Done_Face E lib2 face))
                     else
                       (case FT_Set_Pixel_Sizes E lib2 face font_width font_size of
                          (size_err, lib3) \<Rightarrow>
                            if size_err
                            then (None, set_library p_filter (FT_Done_Face E lib3 face))
                            else (Some face,
                                  p_filter\<lparr>p_sys := (p_sys p_filter)
                                    \<lparr>p_library := lib3,
                                     face_map := (face_map (p_sys p_filter))(psz_key \<mapsto> face)\<rparr>\<rparr>)))))"

subsection \<open>GetFace, GetBestFont, SearchFallbacks, SearchFontByFamilyName\<close>

definition set_font_face :: "'l prog_state \<Rightarrow> font_ptr \<Rightarrow> FT_Face option \<Rightarrow> 'l prog_state" where
  "set_font_face p_filter p_font f =
     p_filter\<lparr>font_at := (font_at p_filter)(p_font := (font_at p_filter p_font)\<lparr>p_face := f\<rparr>)\<rparr>"

definition GetFace ::
  "'l env \<Rightarrow> 'l prog_state \<Rightarrow> font_ptr \<Rightarrow> uni_char_t \<Rightarrow> FT_Face option \<times> 'l prog_state" where
  "GetFace E p_filter p_font codepoint =
     (let p_filter1 =
        (if p_face (font_at p_filter p_font) = None then
           (case LoadFace E p_filter (psz_fontfile (font_at p_filter p_font))
                   (i_index (font_at p_filter p_font)) (p_default_style (p_sys p_filter)) of
              (f, p_filter') \<Rightarrow> set_font_face p_filter' p_font f)
         else p_filter)
      in case p_face (font_at p_filter1 p_font) of
           None \<Rightarrow> (None, p_filter1)
         | Some f \<Rightarrow>
             if FT_Get_Char_Index E f codepoint \<noteq> 0 then (Some f, p_filter1)
             else (None, p_filter1))"

text \<open>The score the loop of \<^verbatim>\<open>GetBestFont\<close> gives one font; \<open>covers\<close> is the value of
  \<^verbatim>\<open>codepoint && GetFace( p_filter, p_font, codepoint )\<close>.\<close>

definition font_score :: "bool \<Rightarrow> vlc_font_t \<Rightarrow> bool \<Rightarrow> bool \<Rightarrow> int" where
  "font_score covers font bold italic =
     (if covers then 1000 else 0)
     + (if b_bold font = bold then 100 else 0)
     + (if b_italic font = italic then 10 else 0)"

fun GetBestFont_loop ::
  "'l env \<Rightarrow> 'l prog_state \<Rightarrow> bool \<Rightarrow> bool \<Rightarrow> uni_char_t \<Rightarrow> font_ptr list
     \<Rightarrow> int \<Rightarrow> font_ptr option \<Rightarrow> font_ptr option \<times> 'l prog_state" where
  "GetBestFont_loop E p_filter bold italic codepoint [] i_best_score p_best_font =
     (p_best_font, p_filter)"
| "GetBestFont_loop E p_filter bold italic codepoint (p_font # rest) i_best_score p_best_font =
     (case (if codepoint \<noteq> 0 then GetFace E p_filter p_font codepoint else (None, p_filter)) of
        (f, p_filter1) \<Rightarrow>
          (let i_score = font_score (f \<noteq> None) (font_at p_filter1 p_font) bold italic
           in if i_score > i_best_score
              then GetBestFont_loop E p_filter1 bold italic codepoint rest i_score (Some p_font)
              else GetBestFont_loop E p_filter1 bold italic codepoint rest i_best_score
                     p_best_font))"

definition GetBestFont ::
  "'l env \<Rightarrow> 'l prog_state \<Rightarrow> family_ptr \<Rightarrow> bool \<Rightarrow> bool \<Rightarrow> uni_char_t
     \<Rightarrow> font_ptr option \<times> 'l prog_state" where
  "GetBestFont E p_filter p_family bold italic codepoint =
     (let fonts = p_fonts (family_at p_filter p_family)
      in GetBestFont_loop E p_filter bold italic codepoint fonts 0
           (case fonts of [] \<Rightarrow> None | p_font # _ \<Rightarrow> Some p_font))"

text \<open>Lines 202 to 209 of \<^verbatim>\<open>SearchFallbacks\<close>: a fallback family without fonts takes
  the fonts of the family \<open>pf_get_family\<close> finds under its name. The result is the
  first font of the family, or \<open>None\<close> where the loop continues with the next family.\<close>

definition set_family_fonts ::
  "'l prog_state \<Rightarrow> family_ptr \<Rightarrow> font_ptr list \<Rightarrow> 'l prog_state" where
  "set_family_fonts p_filter p_family fonts =
     p_filter\<lparr>family_at :=
       (family_at p_filter)(p_family := (family_at p_filter p_family)\<lparr>p_fonts := fonts\<rparr>)\<rparr>"

definition populate_fallback ::
  "'l env \<Rightarrow> 'l prog_state \<Rightarrow> family_ptr \<Rightarrow> font_ptr option \<times> 'l prog_state" where
  "populate_fallback E p_filter p_fallback =
     (case p_fonts (family_at p_filter p_fallback) of
        p_font # _ \<Rightarrow> (Some p_font, p_filter)
      | [] \<Rightarrow>
         (case pf_get_family E (psz_name (family_at p_filter p_fallback)) p_filter of
            (None, p_filter1) \<Rightarrow> (None, p_filter1)
          | (Some p_temp, p_filter1) \<Rightarrow>
              (case p_fonts (family_at p_filter1 p_temp) of
                 [] \<Rightarrow> (None, p_filter1)
               | p_font # others \<Rightarrow>
                   (Some p_font, set_family_fonts p_filter1 p_fallback (p_font # others)))))"

fun SearchFallbacks ::
  "'l env \<Rightarrow> 'l prog_state \<Rightarrow> family_ptr list \<Rightarrow> uni_char_t
     \<Rightarrow> family_ptr option \<times> 'l prog_state" where
  "SearchFallbacks E p_filter [] codepoint = (None, p_filter)"
| "SearchFallbacks E p_filter (p_fallback # rest) codepoint =
     (case populate_fallback E p_filter p_fallback of
        (None, p_filter1) \<Rightarrow> SearchFallbacks E p_filter1 rest codepoint
      | (Some p_font, p_filter1) \<Rightarrow>
          (case GetFace E p_filter1 p_font codepoint of
             (None, p_filter2) \<Rightarrow> SearchFallbacks E p_filter2 rest codepoint
           | (Some f, p_filter2) \<Rightarrow> (Some p_fallback, p_filter2)))"

fun SearchFontByFamilyName ::
  "'l env \<Rightarrow> 'l prog_state \<Rightarrow> family_ptr list \<Rightarrow> string \<Rightarrow> uni_char_t
     \<Rightarrow> family_ptr option \<times> 'l prog_state" where
  "SearchFontByFamilyName E p_filter [] psz_familyname codepoint = (None, p_filter)"
| "SearchFontByFamilyName E p_filter (p # rest) psz_familyname codepoint =
     (if strcasecmp_eq (psz_name (family_at p_filter p)) psz_familyname then
        (case p_fonts (family_at p_filter p) of
           [] \<Rightarrow> SearchFontByFamilyName E p_filter rest psz_familyname codepoint
         | p_font # _ \<Rightarrow>
             (case GetFace E p_filter p_font codepoint of
                (None, p_filter1) \<Rightarrow>
                  SearchFontByFamilyName E p_filter1 rest psz_familyname codepoint
              | (Some f, p_filter1) \<Rightarrow> (Some p, p_filter1)))
      else SearchFontByFamilyName E p_filter rest psz_familyname codepoint)"

subsection \<open>AppendFont and NewFont\<close>

text \<open>The two functions that write the pointers of the lists of fonts, first on the
  pointers themselves: \<open>heads\<close> is the \<^verbatim>\<open>p_fonts\<close> of every family and \<open>nexts\<close> the
  \<^verbatim>\<open>p_next\<close> of every font. The argument \<^verbatim>\<open>pp_list\<close> of \<^verbatim>\<open>AppendFont\<close> points to
  one of these cells. The loop of \<^verbatim>\<open>AppendFont\<close> does not end on a chain that is a
  cycle, so the function is partial. \<open>NewFont_links\<close> is what \<^verbatim>\<open>NewFont\<close> does to the
  pointers for a parent that is not \<^verbatim>\<open>NULL\<close>: the \<^verbatim>\<open>p_next\<close> of the new font is
  \<^verbatim>\<open>NULL\<close> as \<^verbatim>\<open>calloc\<close> leaves it (\<open>links0\<close>), and \<open>fonts\<close> is the store of the
  fonts, read for the flags of the first font.\<close>

datatype font_cell = Head_of family_ptr | Next_of font_ptr

record font_links =
  heads :: "family_ptr \<Rightarrow> font_ptr option"
  nexts :: "font_ptr \<Rightarrow> font_ptr option"

definition read_cell :: "font_links \<Rightarrow> font_cell \<Rightarrow> font_ptr option" where
  "read_cell links c = (case c of Head_of fam \<Rightarrow> heads links fam | Next_of q \<Rightarrow> nexts links q)"

definition write_cell :: "font_links \<Rightarrow> font_cell \<Rightarrow> font_ptr option \<Rightarrow> font_links" where
  "write_cell links c v =
     (case c of
        Head_of fam \<Rightarrow> links\<lparr>heads := (heads links)(fam := v)\<rparr>
      | Next_of q \<Rightarrow> links\<lparr>nexts := (nexts links)(q := v)\<rparr>)"

partial_function (option) AppendFont_links ::
  "font_links \<Rightarrow> font_cell \<Rightarrow> font_ptr \<Rightarrow> font_links option" where
  "AppendFont_links links pp_list p_font =
     (case read_cell links pp_list of
        None \<Rightarrow> Some (write_cell links pp_list (Some p_font))
      | Some q \<Rightarrow> AppendFont_links links (Next_of q) p_font)"

definition NewFont_links ::
  "font_links \<Rightarrow> (font_ptr \<Rightarrow> vlc_font_t) \<Rightarrow> font_ptr \<Rightarrow> bool \<Rightarrow> bool \<Rightarrow> family_ptr
     \<Rightarrow> font_links option" where
  "NewFont_links links fonts p_font bold italic parent =
     (let links0 = links\<lparr>nexts := (nexts links)(p_font := None)\<rparr>
      in case heads links0 parent of
           None \<Rightarrow> AppendFont_links links0 (Head_of parent) p_font
         | Some first \<Rightarrow>
             if (b_bold (fonts first) \<or> b_italic (fonts first)) \<and> \<not> bold \<and> \<not> italic
             then Some (links0\<lparr>heads := (heads links0)(parent := Some p_font),
                               nexts := (nexts links0)(p_font := Some first)\<rparr>)
             else AppendFont_links links0 (Head_of parent) p_font)"

text \<open>The same two functions on the lists of the model. A list is the chain that starts
  at a head, and the \<^verbatim>\<open>p_next\<close> of a font is what follows the font in every list that
  holds it. \<^verbatim>\<open>AppendFont\<close> writes the \<^verbatim>\<open>p_next\<close> of the last font of the chain, which
  therefore shows in every family whose list ends with that font: each of them has the
  new font at its end afterwards. When the list is empty \<^verbatim>\<open>AppendFont\<close> writes the
  head, which shows in that family only. (Lemmas \<open>AppendFont_links_refines\<close> and
  \<open>NewFont_links_refines\<close>: the lists of the result are the chains that the functions on
  the pointers leave.)\<close>

definition AppendFont :: "'l prog_state \<Rightarrow> family_ptr \<Rightarrow> font_ptr \<Rightarrow> 'l prog_state" where
  "AppendFont mem parent p_font =
     (case p_fonts (family_at mem parent) of
        [] \<Rightarrow> set_family_fonts mem parent [p_font]
      | first # others \<Rightarrow>
          mem\<lparr>family_at := (\<lambda>fam.
                if p_fonts (family_at mem fam) \<noteq> []
                   \<and> last (p_fonts (family_at mem fam)) = last (first # others)
                then (family_at mem fam)\<lparr>p_fonts := p_fonts (family_at mem fam) @ [p_font]\<rparr>
                else family_at mem fam)\<rparr>)"

text \<open>\<open>p_new\<close> is the result of \<^verbatim>\<open>calloc\<close>: \<open>None\<close> when the allocation fails,
  else the address of the new object. Putting the font in front of the list writes the
  \<^verbatim>\<open>p_next\<close> of the new font and the head of the parent, so that no other family
  sees it.\<close>

definition NewFont ::
  "font_ptr option \<Rightarrow> 'l prog_state \<Rightarrow> string \<Rightarrow> int \<Rightarrow> bool \<Rightarrow> bool \<Rightarrow> family_ptr option
     \<Rightarrow> font_ptr option \<times> 'l prog_state" where
  "NewFont p_new mem fontfile index bold italic p_parent =
     (case p_new of
        None \<Rightarrow> (None, mem)
      | Some p_font \<Rightarrow>
         (let mem1 = mem\<lparr>font_at := (font_at mem)(p_font :=
                       \<lparr>psz_fontfile = fontfile, i_index = index, b_bold = bold,
                        b_italic = italic, p_face = None\<rparr>)\<rparr>
          in case p_parent of
               None \<Rightarrow> (Some p_font, mem1)
             | Some parent \<Rightarrow>
                 if p_fonts (family_at mem1 parent) \<noteq> []
                    \<and> (b_bold (font_at mem1 (hd (p_fonts (family_at mem1 parent))))
                       \<or> b_italic (font_at mem1 (hd (p_fonts (family_at mem1 parent)))))
                    \<and> \<not> bold \<and> \<not> italic
                 then (Some p_font,
                       set_family_fonts mem1 parent (p_font # p_fonts (family_at mem1 parent)))
                 else (Some p_font, AppendFont mem1 parent p_font)))"

subsection \<open>The family specification parser\<close>

text \<open>A pointer into the token is an index into the buffer \<open>buf\<close>. The two loops of
  \<^verbatim>\<open>TrimWhiteSpace\<close> move the start forwards and the end backwards.\<close>

function trim_start :: "string \<Rightarrow> nat \<Rightarrow> nat \<Rightarrow> nat" where
  "trim_start buf pp ppend =
     (if pp < ppend then
        (if buf ! pp \<noteq> CHR '' '' \<and> buf ! pp \<noteq> CHR 0x09 then pp
         else trim_start buf (Suc pp) ppend)
      else pp)"
  by pat_completeness auto
termination
  by (relation "measure (\<lambda>(buf, pp, ppend). ppend - pp)") auto

fun trim_end :: "string \<Rightarrow> nat \<Rightarrow> nat \<Rightarrow> nat" where
  "trim_end buf pp ppend =
     (if ppend > pp then
        (if buf ! (ppend - 1) \<noteq> CHR '' '' \<and> buf ! (ppend - 1) \<noteq> CHR 0x09 then ppend
         else trim_end buf pp (ppend - 1))
      else ppend)"

declare trim_start.simps [simp del] trim_end.simps [simp del]

definition TrimWhiteSpace :: "string \<Rightarrow> nat \<Rightarrow> nat \<Rightarrow> nat \<times> nat" where
  "TrimWhiteSpace buf pp ppend =
     (let pp1 = trim_start buf pp ppend in (pp1, trim_end buf pp1 ppend))"

text \<open>\<^verbatim>\<open>strndup( psz_start, psz_end - psz_start )\<close> inside the buffer.\<close>

definition strndup_from :: "string \<Rightarrow> nat \<Rightarrow> nat \<Rightarrow> string" where
  "strndup_from buf psz_start n = take n (drop psz_start buf)"

definition AddSingleFamily :: "string \<Rightarrow> nat \<Rightarrow> nat \<Rightarrow> string list \<Rightarrow> string list" where
  "AddSingleFamily buf psz_start psz_end families =
     (case TrimWhiteSpace buf psz_start psz_end of
        (start1, end1) \<Rightarrow>
          (case (if end1 > start1 \<and> buf ! start1 = CHR 0x22 \<and> buf ! (end1 - 1) = CHR 0x22
                 then (start1 + 1, end1 - 1) else (start1, end1)) of
             (start2, end2) \<Rightarrow>
               if end2 > start2
               then families @ [strndup_from buf start2 (end2 - start2)]
               else families))"

lemma strtok_r_shorter:
  "strtok_r save delim = Some (psz, save') \<Longrightarrow> length save' < length save"
proof -
  assume a: "strtok_r save delim = Some (psz, save')"
  let ?s1 = "dropWhile (\<lambda>c. c \<in> set delim) save"
  from a have ne: "?s1 \<noteq> []" and s: "save' = drop 1 (dropWhile (\<lambda>c. c \<notin> set delim) ?s1)"
    by (auto simp: strtok_r_def Let_def split: if_splits)
  from ne obtain c r where cr: "?s1 = c # r" by (cases ?s1) auto
  have "c \<notin> set delim"
    using ne hd_dropWhile [of "\<lambda>c. c \<in> set delim" save] cr by simp
  then have "length (dropWhile (\<lambda>c. c \<notin> set delim) (c # r)) \<le> length r"
    by (simp add: length_dropWhile_le)
  moreover have "length (c # r) \<le> length save"
    using length_dropWhile_le [of "\<lambda>c. c \<in> set delim" save] cr by simp
  ultimately show ?thesis using s cr by simp
qed

function split_loop :: "string \<Rightarrow> string list \<Rightarrow> string list" where
  "split_loop save families =
     (case strtok_r save '','' of
        None \<Rightarrow> families
      | Some (psz, save') \<Rightarrow> split_loop save' (AddSingleFamily psz 0 (length psz) families))"
  by pat_completeness auto
termination
  by (relation "measure (\<lambda>(save, families). length save)") (auto dest: strtok_r_shorter)

declare split_loop.simps [simp del]

definition SplitIntoSingleFamily :: "string option \<Rightarrow> string list \<Rightarrow> string list" where
  "SplitIntoSingleFamily psz_spec families =
     (case psz_spec of None \<Rightarrow> families | Some spec \<Rightarrow> split_loop spec families)"

subsection \<open>SelectFontWithFamilyFallback and SelectAndLoadFace\<close>

text \<open>The first loop over the requested families (lines 554 to 574): the attachment
  family of the same name, then the family \<open>pf_get_family\<close> finds.\<close>

fun same_family_loop ::
  "'l env \<Rightarrow> 'l prog_state \<Rightarrow> string list \<Rightarrow> uni_char_t
     \<Rightarrow> family_ptr option \<times> 'l prog_state" where
  "same_family_loop E p_filter [] codepoint = (None, p_filter)"
| "same_family_loop E p_filter (name # rest) codepoint =
     (case (let p_fallbacks = fallbacks_for_key (fallback_map (p_sys p_filter)) FB_LIST_ATTACHMENTS
            in if p_fallbacks \<noteq> []
               then SearchFontByFamilyName E p_filter p_fallbacks name codepoint
               else (None, p_filter)) of
        (Some p_family, p_filter1) \<Rightarrow> (Some p_family, p_filter1)
      | (None, p_filter1) \<Rightarrow>
          (case pf_get_family E name p_filter1 of
             (None, p_filter2) \<Rightarrow> same_family_loop E p_filter2 rest codepoint
           | (Some p_family, p_filter2) \<Rightarrow>
               (case p_fonts (family_at p_filter2 p_family) of
                  [] \<Rightarrow> same_family_loop E p_filter2 rest codepoint
                | p_font # _ \<Rightarrow>
                    (case GetFace E p_filter2 p_font codepoint of
                       (None, p_filter3) \<Rightarrow> same_family_loop E p_filter3 rest codepoint
                     | (Some f, p_filter3) \<Rightarrow> (Some p_family, p_filter3)))))"

text \<open>The lookup of a fallback list by its key followed by \<open>SearchFallbacks\<close>
  (lines 579 to 582 for the attachments, lines 604 to 607 for the default list).\<close>

definition search_fallback_list ::
  "'l env \<Rightarrow> 'l prog_state \<Rightarrow> string \<Rightarrow> uni_char_t \<Rightarrow> family_ptr option \<times> 'l prog_state" where
  "search_fallback_list E p_filter list_key codepoint =
     (let p_fallbacks = fallbacks_for_key (fallback_map (p_sys p_filter)) list_key
      in if p_fallbacks \<noteq> [] then SearchFallbacks E p_filter p_fallbacks codepoint
         else (None, p_filter))"

text \<open>The loop over the requested families that asks the platform for fallbacks
  (lines 588 to 598).\<close>

fun system_fallbacks_loop ::
  "'l env \<Rightarrow> (string \<Rightarrow> uni_char_t \<Rightarrow> 'l prog_state \<Rightarrow> family_ptr list \<times> 'l prog_state)
     \<Rightarrow> 'l prog_state \<Rightarrow> string list \<Rightarrow> uni_char_t
     \<Rightarrow> family_ptr option \<times> 'l prog_state" where
  "system_fallbacks_loop E get_fallbacks p_filter [] codepoint = (None, p_filter)"
| "system_fallbacks_loop E get_fallbacks p_filter (name # rest) codepoint =
     (case get_fallbacks name codepoint p_filter of
        (p_fallbacks, p_filter1) \<Rightarrow>
          if p_fallbacks \<noteq> [] then
            (case SearchFallbacks E p_filter1 p_fallbacks codepoint of
               (None, p_filter2) \<Rightarrow>
                 system_fallbacks_loop E get_fallbacks p_filter2 rest codepoint
             | (Some p_family, p_filter2) \<Rightarrow>
                 if p_fonts (family_at p_filter2 p_family) \<noteq> [] then (Some p_family, p_filter2)
                 else system_fallbacks_loop E get_fallbacks p_filter2 rest codepoint)
          else system_fallbacks_loop E get_fallbacks p_filter1 rest codepoint)"

definition system_fallbacks ::
  "'l env \<Rightarrow> 'l prog_state \<Rightarrow> string list \<Rightarrow> uni_char_t
     \<Rightarrow> family_ptr option \<times> 'l prog_state" where
  "system_fallbacks E p_filter families codepoint =
     (case pf_get_fallbacks E of
        None \<Rightarrow> (None, p_filter)
      | Some get_fallbacks \<Rightarrow> system_fallbacks_loop E get_fallbacks p_filter families codepoint)"

text \<open>The body of \<^verbatim>\<open>if( codepoint )\<close> up to the default list (lines 548 to 608): each
  later search runs only while \<open>p_family\<close> is still \<^verbatim>\<open>NULL\<close>.\<close>

definition search_with_codepoint ::
  "'l env \<Rightarrow> 'l prog_state \<Rightarrow> string list \<Rightarrow> uni_char_t
     \<Rightarrow> family_ptr option \<times> 'l prog_state" where
  "search_with_codepoint E p_filter families codepoint =
     (case same_family_loop E p_filter families codepoint of
        (Some p_family, p_filter1) \<Rightarrow> (Some p_family, p_filter1)
      | (None, p_filter1) \<Rightarrow>
     (case search_fallback_list E p_filter1 FB_LIST_ATTACHMENTS codepoint of
        (Some p_family, p_filter2) \<Rightarrow> (Some p_family, p_filter2)
      | (None, p_filter2) \<Rightarrow>
     (case system_fallbacks E p_filter2 families codepoint of
        (Some p_family, p_filter3) \<Rightarrow> (Some p_family, p_filter3)
      | (None, p_filter3) \<Rightarrow>
          search_fallback_list E p_filter3 FB_LIST_DEFAULT codepoint)))"

text \<open>Lines 614 to 625: the default family where no family with fonts is at hand, then
  the best font of the family; the result is the font's file and index.\<close>

definition select_best ::
  "'l env \<Rightarrow> 'l prog_state \<Rightarrow> family_ptr option \<Rightarrow> bool \<Rightarrow> bool \<Rightarrow> uni_char_t
     \<Rightarrow> (string \<times> int) option \<times> 'l prog_state" where
  "select_best E p_filter p_family bold italic codepoint =
     (case (case p_family of
              None \<Rightarrow> pf_get_family E (DEFAULT_FAMILY E) p_filter
            | Some fam \<Rightarrow>
                if p_fonts (family_at p_filter fam) = []
                then pf_get_family E (DEFAULT_FAMILY E) p_filter
                else (Some fam, p_filter)) of
        (None, p_filter1) \<Rightarrow> (None, p_filter1)
      | (Some fam, p_filter1) \<Rightarrow>
          (case GetBestFont E p_filter1 fam bold italic codepoint of
             (None, p_filter2) \<Rightarrow> (None, p_filter2)
           | (Some p_font, p_filter2) \<Rightarrow>
               (Some (psz_fontfile (font_at p_filter2 p_font), i_index (font_at p_filter2 p_font)),
                p_filter2)))"

definition SelectFontWithFamilyFallback ::
  "'l env \<Rightarrow> 'l prog_state \<Rightarrow> string list \<Rightarrow> text_style_t \<Rightarrow> uni_char_t
     \<Rightarrow> (string \<times> int) option \<times> 'l prog_state" where
  "SelectFontWithFamilyFallback E p_filter families p_style codepoint =
     (let bold = (STYLE_BOLD \<in> i_style_flags p_style);
          italic = (STYLE_ITALIC \<in> i_style_flags p_style)
      in if codepoint \<noteq> 0 then
           (case search_with_codepoint E p_filter families codepoint of
              (None, p_filter1) \<Rightarrow> (None, p_filter1)
            | (Some p_family, p_filter1) \<Rightarrow>
                select_best E p_filter1 (Some p_family) bold italic codepoint)
         else select_best E p_filter None bold italic codepoint)"

definition SelectAndLoadFace ::
  "'l env \<Rightarrow> 'l prog_state \<Rightarrow> text_style_t \<Rightarrow> uni_char_t
     \<Rightarrow> FT_Face option \<times> 'l prog_state" where
  "SelectAndLoadFace E p_filter p_style codepoint =
     (let fontname = (if STYLE_MONOSPACED \<in> i_style_flags p_style
                      then psz_monofontname p_style else psz_fontname p_style);
          families = SplitIntoSingleFamily fontname []
      in if families = [] then (None, p_filter)
         else
           (case SelectFontWithFamilyFallback E p_filter families p_style codepoint of
              (None, p_filter1) \<Rightarrow> (None, p_filter1)
            | (Some (fontfile, i_idx), p_filter1) \<Rightarrow>
                if fontfile \<noteq> [] then LoadFace E p_filter1 fontfile i_idx p_style
                else (None, p_filter1)))"

section \<open>Definitions that state the properties\<close>

text \<open>The score of section 4.2 of the specification for one font variant, read in a
  state: 1000 when a codepoint is asked for and the face the variant holds has a glyph
  for it, 100 when the bold flag is the wanted one, 10 when the italic flag is.\<close>

definition variant_score ::
  "'l env \<Rightarrow> 'l prog_state \<Rightarrow> bool \<Rightarrow> bool \<Rightarrow> uni_char_t \<Rightarrow> font_ptr \<Rightarrow> int" where
  "variant_score E s bold italic codepoint p =
     (if codepoint \<noteq> 0 \<and>
         (case p_face (font_at s p) of None \<Rightarrow> False
          | Some f \<Rightarrow> FT_Get_Char_Index E f codepoint \<noteq> 0)
      then 1000 else 0)
     + (if b_bold (font_at s p) = bold then 100 else 0)
     + (if b_italic (font_at s p) = italic then 10 else 0)"

text \<open>The choice of the loop of \<open>GetBestFont\<close> for a given score of every font: a font
  replaces the best one so far only when its score is greater.\<close>

fun pick_best ::
  "(font_ptr \<Rightarrow> int) \<Rightarrow> font_ptr list \<Rightarrow> int \<Rightarrow> font_ptr option \<Rightarrow> font_ptr option" where
  "pick_best sc [] bs bf = bf"
| "pick_best sc (p # ps) bs bf =
     (if sc p > bs then pick_best sc ps (sc p) (Some p) else pick_best sc ps bs bf)"

text \<open>The parser as section 4.1 of the specification words it: split on commas, trim
  spaces and tabs, strip one pair of enclosing double quotes, drop what is empty.\<close>

definition spec_is_blank :: "char \<Rightarrow> bool" where
  "spec_is_blank c = (c = CHR '' '' \<or> c = CHR 0x09)"

fun spec_split_commas :: "string \<Rightarrow> string list" where
  "spec_split_commas [] = [[]]"
| "spec_split_commas (c # cs) =
     (if c = CHR '','' then [] # spec_split_commas cs
      else (case spec_split_commas cs of t # ts \<Rightarrow> (c # t) # ts | [] \<Rightarrow> [[c]]))"

definition spec_trim :: "string \<Rightarrow> string" where
  "spec_trim t = rev (dropWhile spec_is_blank (rev (dropWhile spec_is_blank t)))"

definition spec_unquote :: "string \<Rightarrow> string" where
  "spec_unquote t =
     (if 2 \<le> length t \<and> hd t = CHR 0x22 \<and> last t = CHR 0x22 then butlast (tl t) else t)"

text \<open>What \<open>AddSingleFamily\<close> does to a trimmed token, in terms of lists (lemma
  \<open>AddSingleFamily_eq\<close>): the first and the last character go when both are a double
  quote, also when the token has one character only.\<close>

definition code_unquote :: "string \<Rightarrow> string" where
  "code_unquote t =
     (if t \<noteq> [] \<and> hd t = CHR 0x22 \<and> last t = CHR 0x22 then butlast (tl t) else t)"

text \<open>The names the code gets from a list of tokens.\<close>

definition parsed_tokens :: "string list \<Rightarrow> string list" where
  "parsed_tokens toks = filter (\<lambda>u. u \<noteq> []) (map (\<lambda>t. code_unquote (spec_trim t)) toks)"

definition spec_parse :: "string \<Rightarrow> string list" where
  "spec_parse s =
     filter (\<lambda>t. t \<noteq> []) (map (\<lambda>t. spec_unquote (spec_trim t)) (spec_split_commas s))"

text \<open>The ordering of the fonts of a family: a list that holds a plain font (neither bold
  nor italic) starts with a plain font.\<close>

definition is_plain :: "vlc_font_t \<Rightarrow> bool" where
  "is_plain font = (\<not> b_bold font \<and> \<not> b_italic font)"

definition regular_first :: "'l prog_state \<Rightarrow> font_ptr list \<Rightarrow> bool" where
  "regular_first s fonts =
     (case fonts of
        [] \<Rightarrow> True
      | first # others \<Rightarrow>
          (\<exists>p \<in> set fonts. is_plain (font_at s p)) \<longrightarrow> is_plain (font_at s first))"

text \<open>The lists of fonts of a state stand for the chains of \<^verbatim>\<open>p_next\<close>: the list of
  every family is the chain from the head of the family to \<^verbatim>\<open>NULL\<close>.\<close>

fun chain :: "(font_ptr \<Rightarrow> font_ptr option) \<Rightarrow> font_ptr option \<Rightarrow> font_ptr list \<Rightarrow> bool" where
  "chain nxt p [] = (p = None)"
| "chain nxt p (q # qs) = (p = Some q \<and> chain nxt (nxt q) qs)"

definition lists_of :: "font_links \<Rightarrow> 'l prog_state \<Rightarrow> bool" where
  "lists_of links mem =
     (\<forall>fam. chain (nexts links) (heads links fam) (p_fonts (family_at mem fam)))"

text \<open>The key \<open>LoadFace\<close> computes for a source, an index and a style, and the condition
  under which opening a face that is not in the cache fails: the source does not open
  (which includes an attachment index out of range), the face has no Unicode character
  map, or the face does not take the pixel size.\<close>

definition style_key :: "'l env \<Rightarrow> 'l prog_state \<Rightarrow> string \<Rightarrow> int \<Rightarrow> text_style_t \<Rightarrow> string" where
  "style_key E p_filter fontfile i_idx p_style =
     face_key fontfile i_idx (ConvertToLiveSize E p_filter p_style)
       (live_width p_style (ConvertToLiveSize E p_filter p_style))"

definition face_open_fails ::
  "'l env \<Rightarrow> 'l prog_state \<Rightarrow> string \<Rightarrow> int \<Rightarrow> text_style_t \<Rightarrow> bool" where
  "face_open_fails E p_filter fontfile i_idx p_style =
     (case open_source E (p_sys p_filter) fontfile i_idx of
        (None, lib1) \<Rightarrow> True
      | (Some face, lib1) \<Rightarrow>
          (case FT_Select_Charmap E lib1 face of
             (charmap_err, lib2) \<Rightarrow>
               charmap_err \<or>
               fst (FT_Set_Pixel_Sizes E lib2 face
                      (live_width p_style (ConvertToLiveSize E p_filter p_style))
                      (ConvertToLiveSize E p_filter p_style))))"

text \<open>One entry of a fallback list as the loop of \<open>SearchFallbacks\<close> treats it: the
  entry gets its fonts if it has none, then the face of its first font is asked for the
  codepoint. The result says whether the entry covers the codepoint. \<open>probe_all\<close>
  treats every entry of a list in order, without stopping.\<close>

definition probe_fallback ::
  "'l env \<Rightarrow> 'l prog_state \<Rightarrow> family_ptr \<Rightarrow> uni_char_t \<Rightarrow> bool \<times> 'l prog_state" where
  "probe_fallback E s p codepoint =
     (case populate_fallback E s p of
        (None, s1) \<Rightarrow> (False, s1)
      | (Some p_font, s1) \<Rightarrow>
          (case GetFace E s1 p_font codepoint of (f, s2) \<Rightarrow> (f \<noteq> None, s2)))"

fun probe_all ::
  "'l env \<Rightarrow> 'l prog_state \<Rightarrow> family_ptr list \<Rightarrow> uni_char_t \<Rightarrow> bool list \<times> 'l prog_state" where
  "probe_all E s [] codepoint = ([], s)"
| "probe_all E s (p # ps) codepoint =
     (case probe_fallback E s p codepoint of
        (b, s1) \<Rightarrow> (case probe_all E s1 ps codepoint of (bs, s2) \<Rightarrow> (b # bs, s2)))"

text \<open>The file and index of the best font of a family for a style and a codepoint: what
  the end of \<open>SelectFontWithFamilyFallback\<close> returns for a family that has fonts.\<close>

definition font_of_family ::
  "'l env \<Rightarrow> 'l prog_state \<Rightarrow> family_ptr \<Rightarrow> text_style_t \<Rightarrow> uni_char_t
     \<Rightarrow> (string \<times> int) option \<times> 'l prog_state" where
  "font_of_family E s fam p_style codepoint =
     (case GetBestFont E s fam (STYLE_BOLD \<in> i_style_flags p_style)
             (STYLE_ITALIC \<in> i_style_flags p_style) codepoint of
        (None, s1) \<Rightarrow> (None, s1)
      | (Some p_font, s1) \<Rightarrow>
          (Some (psz_fontfile (font_at s1 p_font), i_index (font_at s1 p_font)), s1))"

text \<open>A family covers a codepoint in a state when the face its first font holds has a
  glyph for it.\<close>

definition first_font_covers ::
  "'l env \<Rightarrow> 'l prog_state \<Rightarrow> family_ptr \<Rightarrow> uni_char_t \<Rightarrow> bool" where
  "first_font_covers E s fam codepoint =
     (case p_fonts (family_at s fam) of
        [] \<Rightarrow> False
      | font # others \<Rightarrow>
          (case p_face (font_at s font) of
             None \<Rightarrow> False
           | Some f \<Rightarrow> FT_Get_Char_Index E f codepoint \<noteq> 0))"

text \<open>What the tiers 1 and 3 of section 4.4 of the specification try for one requested
  name. Tier 1 (\<open>probe_same_family\<close>): the attachment list is searched for a family of
  that name; when there is none that covers the codepoint, the family that
  \<open>pf_get_family\<close> finds under the name is taken if the face of its first font has a
  glyph for the codepoint (\<open>probe_registry\<close>). In the search of the attachment list one
  family is tried by \<open>probe_named\<close>: it is taken when its name is the requested one,
  case ignored, and the face of its first font has a glyph for the codepoint. Tier 3
  (\<open>probe_system\<close>): the fallback search of the list that the platform gives for the
  name and the codepoint.\<close>

definition probe_named ::
  "'l env \<Rightarrow> 'l prog_state \<Rightarrow> family_ptr \<Rightarrow> string \<Rightarrow> uni_char_t
     \<Rightarrow> family_ptr option \<times> 'l prog_state" where
  "probe_named E s fam name codepoint =
     (if strcasecmp_eq (psz_name (family_at s fam)) name then
        (case p_fonts (family_at s fam) of
           [] \<Rightarrow> (None, s)
         | font # others \<Rightarrow>
             (case GetFace E s font codepoint of
                (f, s1) \<Rightarrow> (if f \<noteq> None then Some fam else None, s1)))
      else (None, s))"

definition probe_registry ::
  "'l env \<Rightarrow> 'l prog_state \<Rightarrow> string \<Rightarrow> uni_char_t \<Rightarrow> family_ptr option \<times> 'l prog_state" where
  "probe_registry E s name codepoint =
     (case pf_get_family E name s of
        (None, s1) \<Rightarrow> (None, s1)
      | (Some fam, s1) \<Rightarrow>
          (case p_fonts (family_at s1 fam) of
             [] \<Rightarrow> (None, s1)
           | font # others \<Rightarrow>
               (case GetFace E s1 font codepoint of
                  (f, s2) \<Rightarrow> (if f \<noteq> None then Some fam else None, s2))))"

definition probe_same_family ::
  "'l env \<Rightarrow> 'l prog_state \<Rightarrow> string \<Rightarrow> uni_char_t \<Rightarrow> family_ptr option \<times> 'l prog_state" where
  "probe_same_family E s name codepoint =
     (case SearchFontByFamilyName E s
             (fallbacks_for_key (fallback_map (p_sys s)) FB_LIST_ATTACHMENTS) name codepoint of
        (Some fam, s1) \<Rightarrow> (Some fam, s1)
      | (None, s1) \<Rightarrow> probe_registry E s1 name codepoint)"

definition probe_system ::
  "'l env \<Rightarrow> (string \<Rightarrow> uni_char_t \<Rightarrow> 'l prog_state \<Rightarrow> family_ptr list \<times> 'l prog_state)
     \<Rightarrow> 'l prog_state \<Rightarrow> string \<Rightarrow> uni_char_t \<Rightarrow> family_ptr option \<times> 'l prog_state" where
  "probe_system E get_fallbacks s name codepoint =
     (case get_fallbacks name codepoint s of
        (p_fallbacks, s1) \<Rightarrow> SearchFallbacks E s1 p_fallbacks codepoint)"

text \<open>\<open>probe_each\<close> tries a probe on every element of a list in order, each from the
  state the one before left, without stopping at a success. A search over the list is
  the first success of the probe when its result is the first success in that sequence
  with the state right after it, the elements after it not being tried, and is
  \<^verbatim>\<open>NULL\<close> with the state after the last probe when no probe succeeds.\<close>

fun probe_each ::
  "('a \<Rightarrow> 's \<Rightarrow> 'r option \<times> 's) \<Rightarrow> 's \<Rightarrow> 'a list \<Rightarrow> 'r option list \<times> 's" where
  "probe_each probe s [] = ([], s)"
| "probe_each probe s (x # xs) =
     (case probe x s of
        (r, s1) \<Rightarrow> (case probe_each probe s1 xs of (rs, s2) \<Rightarrow> (r # rs, s2)))"

definition first_success ::
  "('a \<Rightarrow> 's \<Rightarrow> 'r option \<times> 's) \<Rightarrow> 's \<Rightarrow> 'a list \<Rightarrow> 'r option \<times> 's \<Rightarrow> bool" where
  "first_success probe s xs res =
     (case res of
        (None, s') \<Rightarrow> probe_each probe s xs = (replicate (length xs) None, s')
      | (Some r, s') \<Rightarrow>
          (\<exists>pre x post. xs = pre @ x # post
             \<and> probe_each probe s (pre @ [x]) = (replicate (length pre) None @ [Some r], s')))"

text \<open>No two keys of the face cache hold the same handle.\<close>

definition handles_distinct :: "'l prog_state \<Rightarrow> bool" where
  "handles_distinct s =
     (\<forall>k1 k2 f. face_map (p_sys s) k1 = Some f \<and> face_map (p_sys s) k2 = Some f \<longrightarrow> k1 = k2)"

section \<open>An example environment\<close>

text \<open>A font engine whose library state counts the calls that open a face; the handle of
  a face is ten times the count plus a code of the file, so that no two opens give the
  same handle. The file \<^verbatim>\<open>nocmap.ttf\<close> has no Unicode character map, a file without a
  code does not open, the file \<^verbatim>\<open>late.ttf\<close> does not open on the first call, and
  a size below one pixel is refused. The registry knows the
  families \<^verbatim>\<open>regal\<close> (regular, bold, italic and bold italic) and \<^verbatim>\<open>dflt\<close>; the
  families 3, 4 and 5 are entries of a fallback list that have no fonts yet, family 6
  has two regular fonts of its own, and the list of family 7 is the end of the list of
  \<^verbatim>\<open>regal\<close>, its bold italic font. The \<^verbatim>\<open>float\<close> expression of line 480 has the
  value of the exact quotient, rounded down.\<close>

definition ex_file_code :: "string \<Rightarrow> nat" where
  "ex_file_code path =
     (if path = ''r.ttf'' then 1 else if path = ''b.ttf'' then 2 else if path = ''i.ttf'' then 3
      else if path = ''bi.ttf'' then 4 else if path = ''d.ttf'' then 5
      else if path = ''nocmap.ttf'' then 7 else if path = ''late.ttf'' then 8 else 0)"

text \<open>The letter A is in the italic file only, B in \<^verbatim>\<open>d.ttf\<close> only, C in every file.\<close>

definition ex_glyph :: "FT_Face \<Rightarrow> uni_char_t \<Rightarrow> nat" where
  "ex_glyph f c =
     (if c = 0x41 then (if f mod 10 = 3 then 36 else 0)
      else if c = 0x42 then (if f mod 10 = 5 then 37 else 0)
      else if c = 0x43 then 38 else 0)"

definition ex_registry :: "string \<Rightarrow> family_ptr option" where
  "ex_registry name =
     (if strcasecmp_eq name ''regal'' then Some 1
      else if strcasecmp_eq name ''dflt'' then Some 2 else None)"

definition ex_env :: "nat env" where
  "ex_env =
     \<lparr>FT_New_Face = (\<lambda>lib path idx.
        (if ex_file_code path = 0 \<or> (path = ''late.ttf'' \<and> lib = 0) then None
         else Some (10 * lib + ex_file_code path), Suc lib)),
      FT_New_Memory_Face = (\<lambda>lib bytes idx.
        (if bytes = [] then None else Some (10 * lib + 6), Suc lib)),
      FT_Open_Face = (\<lambda>lib stream idx. (None, lib)),
      FT_Select_Charmap = (\<lambda>lib f. (f mod 10 = 7, lib)),
      FT_Set_Pixel_Sizes = (\<lambda>lib f w h. (w < 1 \<or> h < 1, lib)),
      FT_Done_Face = (\<lambda>lib f. lib),
      FT_Get_Char_Index = ex_glyph,
      WIN32 = False,
      DWrite_GetFontStream = (\<lambda>i. None),
      STYLE_DEFAULT_FONT_SIZE = 20,
      float_live_size = (\<lambda>h r. \<lfloor>real_of_int h * r / 100\<rfloor>),
      DEFAULT_FAMILY = ''dflt'',
      pf_get_family = (\<lambda>name s. (ex_registry name, s)),
      pf_get_fallbacks = None\<rparr>"

definition ex_font :: "string \<Rightarrow> bool \<Rightarrow> bool \<Rightarrow> vlc_font_t" where
  "ex_font path bold italic =
     \<lparr>psz_fontfile = path, i_index = 0, b_bold = bold, b_italic = italic, p_face = None\<rparr>"

definition ex_fonts :: "font_ptr \<Rightarrow> vlc_font_t" where
  "ex_fonts p =
     (if p = 10 then ex_font ''r.ttf'' False False
      else if p = 11 then ex_font ''b.ttf'' True False
      else if p = 12 then ex_font ''i.ttf'' False True
      else if p = 13 then ex_font ''bi.ttf'' True True
      else if p = 20 then ex_font ''d.ttf'' False False
      else if p = 21 then ex_font ''d.ttf'' False False
      else if p = 22 then ex_font ''r.ttf'' False False
      else if p = 40 then ex_font ''i.ttf'' False True
      else if p = 41 then ex_font ''d.ttf'' False False
      else ex_font [] False False)"

definition ex_families :: "family_ptr \<Rightarrow> vlc_family_t" where
  "ex_families p =
     (if p = 1 then \<lparr>psz_name = ''regal'', p_fonts = [10, 11, 12, 13]\<rparr>
      else if p = 2 then \<lparr>psz_name = ''dflt'', p_fonts = [20]\<rparr>
      else if p = 3 then \<lparr>psz_name = ''Dflt'', p_fonts = []\<rparr>
      else if p = 4 then \<lparr>psz_name = ''nowhere'', p_fonts = []\<rparr>
      else if p = 5 then \<lparr>psz_name = ''regal'', p_fonts = []\<rparr>
      else if p = 6 then \<lparr>psz_name = ''twins'', p_fonts = [21, 22]\<rparr>
      else if p = 7 then \<lparr>psz_name = ''heavy'', p_fonts = [13]\<rparr>
      else if p = 8 then \<lparr>psz_name = ''Embed'', p_fonts = [40]\<rparr>
      else if p = 9 then \<lparr>psz_name = ''extra'', p_fonts = [41]\<rparr>
      else \<lparr>psz_name = [], p_fonts = []\<rparr>)"

definition ex_style :: text_style_t where
  "ex_style =
     \<lparr>psz_fontname = Some ''Regal, nowhere'', psz_monofontname = None,
      i_style_flags = {}, i_font_size = 0, f_font_relsize = 0\<rparr>"

definition ex_state :: "nat prog_state" where
  "ex_state =
     \<lparr>fmt_out_video_i_height = 576,
      p_sys = \<lparr>p_library = 0, face_map = Map.empty,
               fallback_map = [FB_LIST_DEFAULT \<mapsto> [4, 5, 3, 1]],
               pp_font_attachments = [], i_scale = 100, p_default_style = ex_style\<rparr>,
      font_at = ex_fonts, family_at = ex_families\<rparr>"

text \<open>The pointers behind the lists of fonts of the example: the head of every family is
  the first font of its list, and the fonts of \<^verbatim>\<open>regal\<close> and of family 6 are linked
  in the order of their lists.\<close>

definition ex_links :: font_links where
  "ex_links =
     \<lparr>heads = (\<lambda>fam. case p_fonts (ex_families fam) of [] \<Rightarrow> None | q # qs \<Rightarrow> Some q),
      nexts = (\<lambda>q. if q = 10 then Some 11 else if q = 11 then Some 12
                    else if q = 12 then Some 13 else if q = 21 then Some 22 else None)\<rparr>"

text \<open>A state in which the attachments have the families 8 (\<^verbatim>\<open>Embed\<close>, an italic
  font) and 9 (\<^verbatim>\<open>extra\<close>), and a platform that has the fallbacks 7 and 6 for the
  name \<^verbatim>\<open>nowhere\<close> and none for any other name.\<close>

definition ex_state_attachments :: "nat prog_state" where
  "ex_state_attachments =
     ex_state\<lparr>p_sys := (p_sys ex_state)
       \<lparr>fallback_map := [FB_LIST_DEFAULT \<mapsto> [4, 5, 3, 1], FB_LIST_ATTACHMENTS \<mapsto> [8, 9]]\<rparr>\<rparr>"

definition ex_fallbacks ::
  "string \<Rightarrow> uni_char_t \<Rightarrow> nat prog_state \<Rightarrow> family_ptr list \<times> nat prog_state" where
  "ex_fallbacks name codepoint s = (if strcasecmp_eq name ''nowhere'' then [7, 6] else [], s)"

definition ex_env_fallbacks :: "nat env" where
  "ex_env_fallbacks = ex_env\<lparr>pf_get_fallbacks := Some ex_fallbacks\<rparr>"

lemmas ex_defs =
  ex_file_code_def ex_glyph_def ex_registry_def ex_env_def ex_font_def ex_fonts_def
  ex_families_def ex_style_def ex_state_def

section \<open>What LoadFace and GetFace leave unchanged\<close>

lemma LoadFace_frame:
  assumes "LoadFace E s fontfile i_idx p_style = (r, s')"
  shows "font_at s' = font_at s" and "family_at s' = family_at s"
    and "fmt_out_video_i_height s' = fmt_out_video_i_height s"
    and "fallback_map (p_sys s') = fallback_map (p_sys s)"
    and "pp_font_attachments (p_sys s') = pp_font_attachments (p_sys s)"
    and "i_scale (p_sys s') = i_scale (p_sys s)"
    and "p_default_style (p_sys s') = p_default_style (p_sys s)"
  using assms
  by (auto simp: LoadFace_def Let_def set_library_def split: option.splits prod.splits if_splits)

lemma GetFace_frame:
  assumes "GetFace E s p codepoint = (r, s')"
  shows "family_at s' = family_at s"
    and "q \<noteq> p \<Longrightarrow> font_at s' q = font_at s q"
    and "font_at s' p = (font_at s p)\<lparr>p_face := p_face (font_at s' p)\<rparr>"
    and "fallback_map (p_sys s') = fallback_map (p_sys s)"
    and "r = (case p_face (font_at s' p) of None \<Rightarrow> None
              | Some f \<Rightarrow> if FT_Get_Char_Index E f codepoint \<noteq> 0 then Some f else None)"
    and "p_face (font_at s p) \<noteq> None \<Longrightarrow> s' = s"
  using assms
  by (auto simp: GetFace_def Let_def set_font_face_def  split: option.splits prod.splits if_splits
      dest: LoadFace_frame)

lemma GetFace_style_fields:
  assumes "GetFace E s p codepoint = (r, s')"
  shows "b_bold (font_at s' q) = b_bold (font_at s q)"
    and "b_italic (font_at s' q) = b_italic (font_at s q)"
    and "psz_fontfile (font_at s' q) = psz_fontfile (font_at s q)"
    and "i_index (font_at s' q) = i_index (font_at s q)"
proof -
  have "font_at s' q = (font_at s q)\<lparr>p_face := p_face (font_at s' q)\<rparr>"
    using GetFace_frame(2) [OF assms, of q] GetFace_frame(3) [OF assms] by (cases "q = p") auto
  then show "b_bold (font_at s' q) = b_bold (font_at s q)"
    and "b_italic (font_at s' q) = b_italic (font_at s q)"
    and "psz_fontfile (font_at s' q) = psz_fontfile (font_at s q)"
    and "i_index (font_at s' q) = i_index (font_at s q)"
    by (metis vlc_font_t.select_convs vlc_font_t.surjective vlc_font_t.update_convs)+
qed

section \<open>The live size of a style without a size\<close>

lemma wrap_int_fits:
  "- 2147483648 \<le> x \<Longrightarrow> x < 2147483648 \<Longrightarrow> wrap_int x = x"
  by (simp add: wrap_int_def)

lemma sdiv_100_zero: "(x :: int) sdiv 100 = 0 \<longleftrightarrow> \<bar>x\<bar> < 100"
proof -
  have "\<bar>x\<bar> div 100 = 0 \<longleftrightarrow> \<bar>x\<bar> < 100" by auto
  moreover have "sgn x = 0 \<longrightarrow> \<bar>x\<bar> < 100" by (simp add: sgn_if split: if_splits)
  ultimately show ?thesis by (auto simp: signed_divide_int_def)
qed

text \<open>
  Claim C10. For a style whose absolute font size is 0 and whose relative font size is 0,
  \<open>ConvertToLiveSize\<close> returns the default font size when the scale is 100; for any other
  scale it returns the product of the default size and the scale, taken in the 32 bits
  of an \<^verbatim>\<open>int\<close>, divided by 100 with C's integer division. When the product fits an
  \<^verbatim>\<open>int\<close> this is the product itself divided by 100. The requested 0 is not what is
  scaled: the result is the one of a style that asks for the default size. The result
  can be 0 all the same: it is 0 exactly when the scale is 100 and the default size is 0,
  or the scale is not 100 and the product is between -99 and 99.
\<close>

theorem ConvertToLiveSize_size_not_set:
  assumes "i_font_size p_style = 0" and "f_font_relsize p_style = 0"
  shows "ConvertToLiveSize E p_filter p_style =
           (if i_scale (p_sys p_filter) \<noteq> 100
            then wrap_int (STYLE_DEFAULT_FONT_SIZE E * i_scale (p_sys p_filter)) sdiv 100
            else STYLE_DEFAULT_FONT_SIZE E)
         \<and> (- 2147483648 \<le> STYLE_DEFAULT_FONT_SIZE E * i_scale (p_sys p_filter)
            \<and> STYLE_DEFAULT_FONT_SIZE E * i_scale (p_sys p_filter) < 2147483648 \<longrightarrow>
              ConvertToLiveSize E p_filter p_style =
                (if i_scale (p_sys p_filter) \<noteq> 100
                 then (STYLE_DEFAULT_FONT_SIZE E * i_scale (p_sys p_filter)) sdiv 100
                 else STYLE_DEFAULT_FONT_SIZE E))
         \<and> (STYLE_DEFAULT_FONT_SIZE E \<noteq> 0 \<longrightarrow>
              ConvertToLiveSize E p_filter p_style =
              ConvertToLiveSize E p_filter (p_style\<lparr>i_font_size := STYLE_DEFAULT_FONT_SIZE E\<rparr>))
         \<and> (ConvertToLiveSize E p_filter p_style = 0 \<longleftrightarrow>
              (if i_scale (p_sys p_filter) = 100 then STYLE_DEFAULT_FONT_SIZE E = 0
               else \<bar>wrap_int (STYLE_DEFAULT_FONT_SIZE E * i_scale (p_sys p_filter))\<bar> < 100))"
proof (intro conjI impI)
  show value_eq: "ConvertToLiveSize E p_filter p_style =
           (if i_scale (p_sys p_filter) \<noteq> 100
            then wrap_int (STYLE_DEFAULT_FONT_SIZE E * i_scale (p_sys p_filter)) sdiv 100
            else STYLE_DEFAULT_FONT_SIZE E)"
    using assms by (simp add: ConvertToLiveSize_def)
  show "ConvertToLiveSize E p_filter p_style =
          (if i_scale (p_sys p_filter) \<noteq> 100
           then (STYLE_DEFAULT_FONT_SIZE E * i_scale (p_sys p_filter)) sdiv 100
           else STYLE_DEFAULT_FONT_SIZE E)"
    if "- 2147483648 \<le> STYLE_DEFAULT_FONT_SIZE E * i_scale (p_sys p_filter)
        \<and> STYLE_DEFAULT_FONT_SIZE E * i_scale (p_sys p_filter) < 2147483648"
    unfolding value_eq using that wrap_int_fits by simp
  show "ConvertToLiveSize E p_filter p_style =
        ConvertToLiveSize E p_filter (p_style\<lparr>i_font_size := STYLE_DEFAULT_FONT_SIZE E\<rparr>)"
    if "STYLE_DEFAULT_FONT_SIZE E \<noteq> 0"
    using assms that by (simp add: ConvertToLiveSize_def)
  show "ConvertToLiveSize E p_filter p_style = 0 \<longleftrightarrow>
          (if i_scale (p_sys p_filter) = 100 then STYLE_DEFAULT_FONT_SIZE E = 0
           else \<bar>wrap_int (STYLE_DEFAULT_FONT_SIZE E * i_scale (p_sys p_filter))\<bar> < 100)"
    unfolding value_eq by (simp add: sdiv_100_zero)
qed

theorem ConvertToLiveSize_size_not_set_witness:
  "i_font_size ex_style = 0 \<and> f_font_relsize ex_style = 0
   \<and> ConvertToLiveSize ex_env ex_state ex_style = 20
   \<and> ConvertToLiveSize ex_env (ex_state\<lparr>p_sys := (p_sys ex_state)\<lparr>i_scale := 150\<rparr>\<rparr>) ex_style = 30
   \<and> ConvertToLiveSize ex_env (ex_state\<lparr>p_sys := (p_sys ex_state)\<lparr>i_scale := 150\<rparr>\<rparr>) ex_style
       = ConvertToLiveSize ex_env (ex_state\<lparr>p_sys := (p_sys ex_state)\<lparr>i_scale := 150\<rparr>\<rparr>)
           (ex_style\<lparr>i_font_size := 20\<rparr>)
   \<and> ConvertToLiveSize ex_env (ex_state\<lparr>p_sys := (p_sys ex_state)\<lparr>i_scale := - 150\<rparr>\<rparr>) ex_style
       = - 30
   \<and> ConvertToLiveSize ex_env
        (ex_state\<lparr>p_sys := (p_sys ex_state)\<lparr>i_scale := 200000000\<rparr>\<rparr>) ex_style = - 2949672
   \<and> ConvertToLiveSize ex_env (ex_state\<lparr>p_sys := (p_sys ex_state)\<lparr>i_scale := 4\<rparr>\<rparr>) ex_style = 0"
proof -
  have h1: "i_font_size ex_style = 0" and h2: "f_font_relsize ex_style = 0"
    by (simp_all add: ex_style_def)
  have d: "STYLE_DEFAULT_FONT_SIZE ex_env = 20" by (simp add: ex_env_def)
  note inst = ConvertToLiveSize_size_not_set [OF h1 h2, of ex_env]
  have a: "ConvertToLiveSize ex_env ex_state ex_style = 20"
    using inst [of ex_state, THEN conjunct1] by (simp add: d ex_state_def)
  have b: "ConvertToLiveSize ex_env (ex_state\<lparr>p_sys := (p_sys ex_state)\<lparr>i_scale := 150\<rparr>\<rparr>)
             ex_style = 30"
    using inst [of "ex_state\<lparr>p_sys := (p_sys ex_state)\<lparr>i_scale := 150\<rparr>\<rparr>",
        THEN conjunct2, THEN conjunct1]
    by (simp add: d signed_divide_int_def)
  have c: "ConvertToLiveSize ex_env (ex_state\<lparr>p_sys := (p_sys ex_state)\<lparr>i_scale := 150\<rparr>\<rparr>)
             ex_style
           = ConvertToLiveSize ex_env (ex_state\<lparr>p_sys := (p_sys ex_state)\<lparr>i_scale := 150\<rparr>\<rparr>)
               (ex_style\<lparr>i_font_size := 20\<rparr>)"
    using inst [of "ex_state\<lparr>p_sys := (p_sys ex_state)\<lparr>i_scale := 150\<rparr>\<rparr>",
        THEN conjunct2, THEN conjunct2, THEN conjunct1]
    by (simp add: d)
  have e: "ConvertToLiveSize ex_env (ex_state\<lparr>p_sys := (p_sys ex_state)\<lparr>i_scale := - 150\<rparr>\<rparr>)
             ex_style = - 30"
    using inst [of "ex_state\<lparr>p_sys := (p_sys ex_state)\<lparr>i_scale := - 150\<rparr>\<rparr>",
        THEN conjunct2, THEN conjunct1]
    by (simp add: d signed_divide_int_def)
  have f: "ConvertToLiveSize ex_env
             (ex_state\<lparr>p_sys := (p_sys ex_state)\<lparr>i_scale := 200000000\<rparr>\<rparr>) ex_style = - 2949672"
    using inst [of "ex_state\<lparr>p_sys := (p_sys ex_state)\<lparr>i_scale := 200000000\<rparr>\<rparr>",
        THEN conjunct1]
    by (simp add: d wrap_int_def signed_divide_int_def)
  have g: "ConvertToLiveSize ex_env (ex_state\<lparr>p_sys := (p_sys ex_state)\<lparr>i_scale := 4\<rparr>\<rparr>)
             ex_style = 0"
    using inst [of "ex_state\<lparr>p_sys := (p_sys ex_state)\<lparr>i_scale := 4\<rparr>\<rparr>",
        THEN conjunct2, THEN conjunct2, THEN conjunct2]
    by (simp add: d wrap_int_def)
  show ?thesis
    by (intro conjI) (fact h1 h2 a b c e f g)+
qed

text \<open>
  The effective size of a style without a size is 0 where the scale is small: the
  default size 20 at the scale 4, and every default size at the scale 0.
\<close>

theorem ConvertToLiveSize_zero_size_counterexample:
  "i_font_size ex_style = 0 \<and> f_font_relsize ex_style = 0
   \<and> STYLE_DEFAULT_FONT_SIZE ex_env = 20
   \<and> ConvertToLiveSize ex_env (ex_state\<lparr>p_sys := (p_sys ex_state)\<lparr>i_scale := 4\<rparr>\<rparr>) ex_style = 0
   \<and> ConvertToLiveSize ex_env (ex_state\<lparr>p_sys := (p_sys ex_state)\<lparr>i_scale := 0\<rparr>\<rparr>) ex_style = 0"
  by (simp add: ConvertToLiveSize_def wrap_int_def signed_divide_int_def ex_style_def ex_env_def)
section \<open>The best font of a family\<close>

lemma GetBestFont_loop_frame:
  "GetBestFont_loop E s bold italic codepoint fonts bs bf = (r, s') \<Longrightarrow>
   family_at s' = family_at s \<and> (\<forall>q. q \<notin> set fonts \<longrightarrow> font_at s' q = font_at s q)
   \<and> (codepoint = 0 \<longrightarrow> s' = s)"
proof (induction fonts arbitrary: s bs bf)
  case Nil
  then show ?case by simp
next
  case (Cons p ps)
  obtain f s1 where probe:
    "(if codepoint \<noteq> 0 then GetFace E s p codepoint else (None, s)) = (f, s1)"
    by (cases "if codepoint \<noteq> 0 then GetFace E s p codepoint else (None, s)") auto
  then have step: "family_at s1 = family_at s" "\<And>q. q \<noteq> p \<Longrightarrow> font_at s1 q = font_at s q"
     "codepoint = 0 \<Longrightarrow> s1 = s"
    by (auto split: if_splits dest: GetFace_frame)
  from Cons.prems probe obtain bs' bf' where
    "GetBestFont_loop E s1 bold italic codepoint ps bs' bf' = (r, s')"
    by (auto simp: Let_def split: if_splits)
  from Cons.IH [OF this] step show ?case by auto
qed


lemma GetBestFont_loop_pick_best:
  "distinct fonts \<Longrightarrow>
   GetBestFont_loop E s bold italic codepoint fonts bs bf = (r, s') \<Longrightarrow>
   r = pick_best (variant_score E s' bold italic codepoint) fonts bs bf"
proof (induction fonts arbitrary: s bs bf)
  case Nil
  then show ?case by simp
next
  case (Cons p ps)
  obtain f s1 where probe:
    "(if codepoint \<noteq> 0 then GetFace E s p codepoint else (None, s)) = (f, s1)"
    by (cases "if codepoint \<noteq> 0 then GetFace E s p codepoint else (None, s)") auto
  let ?i_score = "font_score (f \<noteq> None) (font_at s1 p) bold italic"
  let ?bs = "if ?i_score > bs then ?i_score else bs"
  let ?bf = "if ?i_score > bs then Some p else bf"
  from Cons.prems probe have rest:
    "GetBestFont_loop E s1 bold italic codepoint ps ?bs ?bf = (r, s')"
    by (auto simp: Let_def split: if_splits)
  from Cons.prems have d: "distinct ps" and notin: "p \<notin> set ps" by auto
  have same: "font_at s' p = font_at s1 p"
    using GetBestFont_loop_frame [OF rest] notin by blast
  have covers: "(f \<noteq> None) =
      (codepoint \<noteq> 0 \<and> (case p_face (font_at s1 p) of None \<Rightarrow> False
          | Some g \<Rightarrow> FT_Get_Char_Index E g codepoint \<noteq> 0))"
  proof (cases "codepoint = 0")
    case True
    then show ?thesis using probe by auto
  next
    case False
    then have "GetFace E s p codepoint = (f, s1)" using probe by simp
    from GetFace_frame(5) [OF this] False show ?thesis
      by (auto split: option.splits)
  qed
  have score: "?i_score = variant_score E s' bold italic codepoint p"
    unfolding variant_score_def font_score_def same covers by simp
  from Cons.IH [OF d rest] score show ?case by auto
qed

lemma pick_best_cases:
  "pick_best sc ps bs bf = r \<Longrightarrow>
   (if \<exists>p \<in> set ps. sc p > bs
    then \<exists>k < length ps. r = Some (ps ! k) \<and> sc (ps ! k) > bs
           \<and> (\<forall>j < length ps. sc (ps ! j) \<le> sc (ps ! k))
           \<and> (\<forall>j < k. sc (ps ! j) < sc (ps ! k))
    else r = bf)"
proof (induction ps arbitrary: bs bf)
  case Nil
  then show ?case by simp
next
  case (Cons p ps)
  show ?case
  proof (cases "sc p > bs")
    case True
    with Cons.prems have r: "pick_best sc ps (sc p) (Some p) = r" by simp
    note ih = Cons.IH [OF r]
    show ?thesis
    proof (cases "\<exists>q \<in> set ps. sc q > sc p")
      case better: True
      with ih obtain k where k: "k < length ps" "r = Some (ps ! k)" "sc (ps ! k) > sc p"
        "\<forall>j < length ps. sc (ps ! j) \<le> sc (ps ! k)" "\<forall>j < k. sc (ps ! j) < sc (ps ! k)"
        by auto
      have "Suc k < length (p # ps)" using k by simp
      moreover have "r = Some ((p # ps) ! Suc k)" using k by simp
      moreover have "sc ((p # ps) ! Suc k) > bs" using k True by simp
      moreover have "\<forall>j < length (p # ps). sc ((p # ps) ! j) \<le> sc ((p # ps) ! Suc k)"
        using k by (auto simp: nth_Cons split: nat.splits)
      moreover have "\<forall>j < Suc k. sc ((p # ps) ! j) < sc ((p # ps) ! Suc k)"
        using k by (auto simp: nth_Cons less_Suc_eq_0_disj split: nat.splits)
      ultimately show ?thesis using True by (metis list.set_intros(1))
    next
      case nobetter: False
      with ih have "r = Some p" by auto
      moreover have "\<forall>j < length (p # ps). sc ((p # ps) ! j) \<le> sc p"
        using nobetter by (auto simp: nth_Cons split: nat.splits) (metis not_less nth_mem)
      ultimately have "0 < length (p # ps) \<and> r = Some ((p # ps) ! 0) \<and> sc ((p # ps) ! 0) > bs
         \<and> (\<forall>j < length (p # ps). sc ((p # ps) ! j) \<le> sc ((p # ps) ! 0))
         \<and> (\<forall>j < 0. sc ((p # ps) ! j) < sc ((p # ps) ! 0))"
        using True by simp
      then show ?thesis using True by (metis list.set_intros(1))
    qed
  next
    case False
    with Cons.prems have r: "pick_best sc ps bs bf = r" by simp
    note ih = Cons.IH [OF r]
    show ?thesis
    proof (cases "\<exists>q \<in> set ps. sc q > bs")
      case better: True
      with ih obtain k where k: "k < length ps" "r = Some (ps ! k)" "sc (ps ! k) > bs"
        "\<forall>j < length ps. sc (ps ! j) \<le> sc (ps ! k)" "\<forall>j < k. sc (ps ! j) < sc (ps ! k)"
        by auto
      have "Suc k < length (p # ps)" using k by simp
      moreover have "r = Some ((p # ps) ! Suc k)" using k by simp
      moreover have "sc ((p # ps) ! Suc k) > bs" using k by simp
      moreover have "\<forall>j < length (p # ps). sc ((p # ps) ! j) \<le> sc ((p # ps) ! Suc k)"
        using k False by (auto simp: nth_Cons split: nat.splits)
      moreover have "\<forall>j < Suc k. sc ((p # ps) ! j) < sc ((p # ps) ! Suc k)"
        using k False by (auto simp: nth_Cons less_Suc_eq_0_disj split: nat.splits)
      ultimately show ?thesis using better by (metis list.set_intros(2))
    next
      case nobetter: False
      with ih False show ?thesis by auto
    qed
  qed
qed

lemma variant_score_nonneg: "0 \<le> variant_score E s bold italic codepoint p"
  by (simp add: variant_score_def)

lemma GetBestFont_first_best:
  assumes run: "GetBestFont E s fam bold italic codepoint = (best, s')"
    and nonempty: "p_fonts (family_at s fam) \<noteq> []"
    and d: "distinct (p_fonts (family_at s fam))"
  shows "\<exists>k < length (p_fonts (family_at s fam)).
           best = Some (p_fonts (family_at s fam) ! k)
           \<and> (\<forall>j < length (p_fonts (family_at s fam)).
                 variant_score E s' bold italic codepoint (p_fonts (family_at s fam) ! j)
                 \<le> variant_score E s' bold italic codepoint (p_fonts (family_at s fam) ! k))
           \<and> (\<forall>j < k.
                 variant_score E s' bold italic codepoint (p_fonts (family_at s fam) ! j)
                 < variant_score E s' bold italic codepoint (p_fonts (family_at s fam) ! k))"
proof -
  let ?fonts = "p_fonts (family_at s fam)"
  let ?sc = "variant_score E s' bold italic codepoint"
  from nonempty obtain p ps where fonts: "?fonts = p # ps" by (cases ?fonts) auto
  from run fonts have loop:
    "GetBestFont_loop E s bold italic codepoint ?fonts 0 (Some p) = (best, s')"
    by (simp add: GetBestFont_def Let_def)
  have pb: "pick_best ?sc ?fonts 0 (Some p) = best"
    using GetBestFont_loop_pick_best [OF d loop] by simp
  show ?thesis
  proof (cases "\<exists>q \<in> set ?fonts. ?sc q > 0")
    case True
    with pick_best_cases [OF pb] show ?thesis by auto
  next
    case False
    with pick_best_cases [OF pb] have b: "best = Some p" by auto
    have all0: "\<forall>j < length ?fonts. ?sc (?fonts ! j) = 0"
    proof (intro allI impI)
      fix j assume "j < length ?fonts"
      then have "?fonts ! j \<in> set ?fonts" by simp
      with False have "?sc (?fonts ! j) \<le> 0" by auto
      with variant_score_nonneg [of E s' bold italic codepoint "?fonts ! j"]
      show "?sc (?fonts ! j) = 0" by simp
    qed
    have "0 < length ?fonts \<and> best = Some (?fonts ! 0)
          \<and> (\<forall>j < length ?fonts. ?sc (?fonts ! j) \<le> ?sc (?fonts ! 0))
          \<and> (\<forall>j < 0. ?sc (?fonts ! j) < ?sc (?fonts ! 0))"
      using b fonts all0 variant_score_nonneg [of E s' bold italic codepoint p] by simp
    then show ?thesis by blast
  qed
qed


lemma GetBestFont_loop_some:
  "GetBestFont_loop E s bold italic codepoint fonts bs (Some p) = (r, s') \<Longrightarrow> r \<noteq> None"
proof (induction fonts arbitrary: s bs p)
  case Nil
  then show ?case by auto
next
  case (Cons q qs)
  obtain f s1 where probe:
    "(if codepoint \<noteq> 0 then GetFace E s q codepoint else (None, s)) = (f, s1)"
    by (cases "if codepoint \<noteq> 0 then GetFace E s q codepoint else (None, s)") auto
  from Cons.prems probe obtain bs' p' where
    "GetBestFont_loop E s1 bold italic codepoint qs bs' (Some p') = (r, s')"
    by (auto simp: Let_def split: if_splits)
  then show ?case by (rule Cons.IH)
qed

lemma GetBestFont_loop_fields:
  "GetBestFont_loop E s bold italic codepoint fonts bs bf = (r, s') \<Longrightarrow>
   b_bold (font_at s' q) = b_bold (font_at s q) \<and> b_italic (font_at s' q) = b_italic (font_at s q)
   \<and> psz_fontfile (font_at s' q) = psz_fontfile (font_at s q)
   \<and> i_index (font_at s' q) = i_index (font_at s q)"
proof (induction fonts arbitrary: s bs bf)
  case Nil
  then show ?case by simp
next
  case (Cons p ps)
  obtain f s1 where probe:
    "(if codepoint \<noteq> 0 then GetFace E s p codepoint else (None, s)) = (f, s1)"
    by (cases "if codepoint \<noteq> 0 then GetFace E s p codepoint else (None, s)") auto
  then have step: "b_bold (font_at s1 q) = b_bold (font_at s q)"
    "b_italic (font_at s1 q) = b_italic (font_at s q)"
    "psz_fontfile (font_at s1 q) = psz_fontfile (font_at s q)"
    "i_index (font_at s1 q) = i_index (font_at s q)"
    by (auto split: if_splits dest: GetFace_style_fields)
  from Cons.prems probe obtain bs' bf' where
    "GetBestFont_loop E s1 bold italic codepoint ps bs' bf' = (r, s')"
    by (auto simp: Let_def split: if_splits)
  from Cons.IH [OF this] step show ?case by simp
qed

text \<open>
  Claim C3. The fonts of a family are the nodes of a linked list, so they are pairwise
  distinct. For a family with at least one font, \<open>GetBestFont\<close> returns a font of the
  family whose score is the highest of the family. The score of a variant is
  \<open>variant_score\<close>, read in the state the call leaves (it holds the faces the call
  opened): 1000 when a codepoint is given and the variant's face has a glyph for it,
  plus 100 when its bold flag is the wanted one, plus 10 when its italic flag is. The
  call changes no bold or italic flag. A variant that is the only one to reach 1000,
  that is the only one whose face covers the codepoint, is the one returned whatever its
  style: in the example family of a regular, a bold, an italic and a bold italic font,
  where only the italic font has the letter A, a request for (not bold, not italic, A)
  gets the italic font.
\<close>

theorem GetBestFont_highest_score:
  assumes run: "GetBestFont E s fam bold italic codepoint = (best, s')"
    and nonempty: "p_fonts (family_at s fam) \<noteq> []"
    and d: "distinct (p_fonts (family_at s fam))"
  shows "(\<exists>p \<in> set (p_fonts (family_at s fam)). best = Some p
            \<and> (\<forall>q \<in> set (p_fonts (family_at s fam)).
                  variant_score E s' bold italic codepoint q
                  \<le> variant_score E s' bold italic codepoint p))
         \<and> (\<forall>q. b_bold (font_at s' q) = b_bold (font_at s q)
                  \<and> b_italic (font_at s' q) = b_italic (font_at s q))
         \<and> (\<forall>p \<in> set (p_fonts (family_at s fam)).
               variant_score E s' bold italic codepoint p \<ge> 1000
               \<and> (\<forall>q \<in> set (p_fonts (family_at s fam)). q \<noteq> p \<longrightarrow>
                     variant_score E s' bold italic codepoint q < 1000)
               \<longrightarrow> best = Some p)"
proof -
  let ?fonts = "p_fonts (family_at s fam)"
  let ?sc = "variant_score E s' bold italic codepoint"
  from GetBestFont_first_best [OF run nonempty d] obtain k where
    k: "k < length ?fonts" "best = Some (?fonts ! k)"
       "\<forall>j < length ?fonts. ?sc (?fonts ! j) \<le> ?sc (?fonts ! k)"
    by blast
  have max: "\<forall>q \<in> set ?fonts. ?sc q \<le> ?sc (?fonts ! k)"
    using k(3) by (auto simp: in_set_conv_nth)
  have first: "\<exists>p \<in> set ?fonts. best = Some p \<and> (\<forall>q \<in> set ?fonts. ?sc q \<le> ?sc p)"
    using k(1,2) max by (intro bexI [of _ "?fonts ! k"]) auto
  from nonempty obtain p0 ps where fonts: "?fonts = p0 # ps" by (cases ?fonts) auto
  from run fonts have loop:
    "GetBestFont_loop E s bold italic codepoint ?fonts 0 (Some p0) = (best, s')"
    by (simp add: GetBestFont_def Let_def)
  have fields: "\<forall>q. b_bold (font_at s' q) = b_bold (font_at s q)
                  \<and> b_italic (font_at s' q) = b_italic (font_at s q)"
    using GetBestFont_loop_fields [OF loop] by blast
  have sole: "\<forall>p \<in> set ?fonts.
       ?sc p \<ge> 1000 \<and> (\<forall>q \<in> set ?fonts. q \<noteq> p \<longrightarrow> ?sc q < 1000) \<longrightarrow> best = Some p"
  proof (intro ballI impI)
    fix p assume p: "p \<in> set ?fonts"
      and h: "?sc p \<ge> 1000 \<and> (\<forall>q \<in> set ?fonts. q \<noteq> p \<longrightarrow> ?sc q < 1000)"
    have "?sc (?fonts ! k) \<ge> 1000" using max p h by force
    moreover have "?fonts ! k \<in> set ?fonts" using k(1) by simp
    ultimately have "?fonts ! k = p" using h by force
    then show "best = Some p" using k(2) by simp
  qed
  from first fields sole show ?thesis by blast
qed

theorem GetBestFont_highest_score_witness:
  "p_fonts (family_at ex_state 1) = [10, 11, 12, 13]
   \<and> \<not> b_bold (font_at ex_state 12) \<and> b_italic (font_at ex_state 12)
   \<and> variant_score ex_env (snd (GetBestFont ex_env ex_state 1 False False 0x41))
        False False 0x41 10 = 110
   \<and> variant_score ex_env (snd (GetBestFont ex_env ex_state 1 False False 0x41))
        False False 0x41 12 = 1100
   \<and> fst (GetBestFont ex_env ex_state 1 False False 0x41) = Some 12"
proof -
  let ?run = "GetBestFont ex_env ex_state 1 False False 0x41"
  let ?sc = "variant_score ex_env (snd ?run) False False 0x41"
  have run: "?run = (fst ?run, snd ?run)" by simp
  have fonts: "p_fonts (family_at ex_state 1) = [10, 11, 12, 13]"
    by (simp add: ex_state_def ex_families_def)
  have ne: "p_fonts (family_at ex_state 1) \<noteq> []"
    and d: "distinct (p_fonts (family_at ex_state 1))"
    unfolding fonts by simp_all
  have flags: "\<not> b_bold (font_at ex_state 12)" "b_italic (font_at ex_state 12)"
    by (simp_all add: ex_state_def ex_fonts_def ex_font_def)
  have sc: "?sc 10 = 110" "?sc 11 = 10" "?sc 12 = 1100" "?sc 13 = 0"
    by code_simp+
  have "\<forall>p \<in> set [10, 11, 12, 13].
          ?sc p \<ge> 1000 \<and> (\<forall>q \<in> set [10, 11, 12, 13]. q \<noteq> p \<longrightarrow> ?sc q < 1000)
          \<longrightarrow> fst ?run = Some p"
    using GetBestFont_highest_score [OF run ne d] unfolding fonts by blast
  then have "fst ?run = Some 12" using sc by simp
  with fonts flags sc show ?thesis by simp
qed

text \<open>
  Claim C4. For a family with at least one font, \<open>GetBestFont\<close> returns a font (not
  \<^verbatim>\<open>NULL\<close>). The font returned is the first of the list that has the highest score:
  every font before it has a strictly smaller score, so of two fonts with the same
  score the earlier one wins; and when no font scores above zero the first font of the
  list is returned.
\<close>

theorem GetBestFont_non_null_first_wins:
  assumes run: "GetBestFont E s fam bold italic codepoint = (best, s')"
    and nonempty: "p_fonts (family_at s fam) \<noteq> []"
  shows "best \<noteq> None
         \<and> (distinct (p_fonts (family_at s fam)) \<longrightarrow>
             (\<exists>k < length (p_fonts (family_at s fam)).
                best = Some (p_fonts (family_at s fam) ! k)
                \<and> (\<forall>j < length (p_fonts (family_at s fam)).
                      variant_score E s' bold italic codepoint (p_fonts (family_at s fam) ! j)
                      \<le> variant_score E s' bold italic codepoint (p_fonts (family_at s fam) ! k))
                \<and> (\<forall>j < k.
                      variant_score E s' bold italic codepoint (p_fonts (family_at s fam) ! j)
                      < variant_score E s' bold italic codepoint (p_fonts (family_at s fam) ! k))
                \<and> ((\<forall>j < length (p_fonts (family_at s fam)).
                       variant_score E s' bold italic codepoint (p_fonts (family_at s fam) ! j) \<le> 0)
                    \<longrightarrow> k = 0)))"
proof (intro conjI impI)
  let ?fonts = "p_fonts (family_at s fam)"
  let ?sc = "variant_score E s' bold italic codepoint"
  from nonempty obtain p0 ps where fonts: "?fonts = p0 # ps" by (cases ?fonts) auto
  from run fonts have loop:
    "GetBestFont_loop E s bold italic codepoint ?fonts 0 (Some p0) = (best, s')"
    by (simp add: GetBestFont_def Let_def)
  then show "best \<noteq> None" by (rule GetBestFont_loop_some)
  assume d: "distinct ?fonts"
  from GetBestFont_first_best [OF run nonempty d] obtain k where
    k: "k < length ?fonts" "best = Some (?fonts ! k)"
       "\<forall>j < length ?fonts. ?sc (?fonts ! j) \<le> ?sc (?fonts ! k)"
       "\<forall>j < k. ?sc (?fonts ! j) < ?sc (?fonts ! k)"
    by blast
  have "k = 0" if all0: "\<forall>j < length ?fonts. ?sc (?fonts ! j) \<le> 0"
  proof (rule ccontr)
    assume "k \<noteq> 0"
    then have "?sc (?fonts ! 0) < ?sc (?fonts ! k)" using k(4) by simp
    moreover have "?sc (?fonts ! k) \<le> 0" using all0 k(1) by simp
    moreover have "0 \<le> ?sc (?fonts ! 0)" by (rule variant_score_nonneg)
    ultimately show False by simp
  qed
  with k show "\<exists>k < length ?fonts. best = Some (?fonts ! k)
      \<and> (\<forall>j < length ?fonts. ?sc (?fonts ! j) \<le> ?sc (?fonts ! k))
      \<and> (\<forall>j < k. ?sc (?fonts ! j) < ?sc (?fonts ! k))
      \<and> ((\<forall>j < length ?fonts. ?sc (?fonts ! j) \<le> 0) \<longrightarrow> k = 0)"
    by blast
qed

theorem GetBestFont_non_null_first_wins_witness:
  "p_fonts (family_at ex_state 6) = [21, 22]
   \<and> variant_score ex_env (snd (GetBestFont ex_env ex_state 6 False False 0)) False False 0 21 = 110
   \<and> variant_score ex_env (snd (GetBestFont ex_env ex_state 6 False False 0)) False False 0 22 = 110
   \<and> fst (GetBestFont ex_env ex_state 6 False False 0) = Some 21
   \<and> p_fonts (family_at ex_state 7) = [13]
   \<and> variant_score ex_env (snd (GetBestFont ex_env ex_state 7 False False 0)) False False 0 13 = 0
   \<and> fst (GetBestFont ex_env ex_state 7 False False 0) = Some 13"
proof -
  let ?run6 = "GetBestFont ex_env ex_state 6 False False 0"
  let ?sc6 = "variant_score ex_env (snd ?run6) False False 0"
  let ?run7 = "GetBestFont ex_env ex_state 7 False False 0"
  let ?sc7 = "variant_score ex_env (snd ?run7) False False 0"
  have run6: "?run6 = (fst ?run6, snd ?run6)" and run7: "?run7 = (fst ?run7, snd ?run7)"
    by simp_all
  have fonts6: "p_fonts (family_at ex_state 6) = [21, 22]"
    and fonts7: "p_fonts (family_at ex_state 7) = [13]"
    by (simp_all add: ex_state_def ex_families_def)
  have sc6: "?sc6 21 = 110" "?sc6 22 = 110" by code_simp+
  have sc7: "?sc7 13 = 0" by code_simp
  have ne6: "p_fonts (family_at ex_state 6) \<noteq> []" and d6: "distinct (p_fonts (family_at ex_state 6))"
    unfolding fonts6 by simp_all
  have ne7: "p_fonts (family_at ex_state 7) \<noteq> []" and d7: "distinct (p_fonts (family_at ex_state 7))"
    unfolding fonts7 by simp_all
  have "\<exists>k < length [21, 22 :: nat]. fst ?run6 = Some ([21, 22] ! k)
          \<and> (\<forall>j < k. ?sc6 ([21, 22] ! j) < ?sc6 ([21, 22] ! k))"
    using GetBestFont_non_null_first_wins [OF run6 ne6] d6 unfolding fonts6 by blast
  then obtain k where k: "k < length [21, 22 :: nat]" "fst ?run6 = Some ([21, 22] ! k)"
    "\<forall>j < k. ?sc6 ([21, 22] ! j) < ?sc6 ([21, 22] ! k)" by blast
  have "k = 0"
  proof (rule ccontr)
    assume "k \<noteq> 0"
    with k(1) have "k = 1" by simp
    with k(3) have "?sc6 ([21, 22] ! 0) < ?sc6 ([21, 22] ! 1)" by blast
    with sc6 show False by simp
  qed
  with k(2) have best6: "fst ?run6 = Some 21" by simp
  have "\<exists>k < length [13 :: nat]. fst ?run7 = Some ([13] ! k)"
    using GetBestFont_non_null_first_wins [OF run7 ne7] d7 unfolding fonts7 by blast
  then have best7: "fst ?run7 = Some 13" by auto
  from fonts6 fonts7 sc6 sc7 best6 best7 show ?thesis by simp
qed

section \<open>The order of the fonts of a family\<close>

text \<open>The functions on the lists do what the functions on the pointers do. For a new
  font, one that is in no list (and, for \<open>AppendFont\<close>, whose \<^verbatim>\<open>p_next\<close> is
  \<^verbatim>\<open>NULL\<close>), and pointers whose chains are the lists of the state, the function on the
  pointers returns, and the chains of its result are the lists of the state that the
  function on the lists returns.\<close>

lemma chain_last_next:
  "chain nxt p xs \<Longrightarrow> xs \<noteq> [] \<Longrightarrow> nxt (last xs) = None"
proof (induction xs arbitrary: p)
  case Nil
  then show ?case by simp
next
  case (Cons q qs)
  then show ?case by (cases qs) auto
qed

lemma chain_ends_at:
  "chain nxt p xs \<Longrightarrow> l \<in> set xs \<Longrightarrow> nxt l = None \<Longrightarrow> last xs = l"
proof (induction xs arbitrary: p)
  case Nil
  then show ?case by simp
next
  case (Cons q qs)
  show ?case
  proof (cases "q = l")
    case True
    with Cons.prems have "chain nxt None qs" by simp
    then have "qs = []" by (cases qs) auto
    with True show ?thesis by simp
  next
    case False
    with Cons.prems have "l \<in> set qs" "chain nxt (nxt q) qs" by auto
    with Cons.IH Cons.prems(3) have "last qs = l" by blast
    moreover from \<open>l \<in> set qs\<close> have "qs \<noteq> []" by auto
    ultimately show ?thesis by simp
  qed
qed

lemma AppendFont_links_walk:
  "chain (nexts links) (read_cell links c) xs \<Longrightarrow>
   AppendFont_links links c p_font =
     Some (write_cell links (if xs = [] then c else Next_of (last xs)) (Some p_font))"
proof (induction xs arbitrary: c)
  case Nil
  then show ?case by (subst AppendFont_links.simps) simp
next
  case (Cons q qs)
  then have r: "read_cell links c = Some q" and rest: "chain (nexts links) (nexts links q) qs"
    by simp_all
  from rest have "chain (nexts links) (read_cell links (Next_of q)) qs"
    by (simp add: read_cell_def)
  from Cons.IH [OF this] r show ?case
    by (subst AppendFont_links.simps) (cases qs; simp)
qed

lemma chain_append_new:
  assumes "chain nxt p xs" and "xs \<noteq> []" and "p_font \<notin> set xs" and "nxt p_font = None"
  shows "chain (nxt(last xs := Some p_font)) p (xs @ [p_font])"
  using assms
proof (induction xs arbitrary: p)
  case Nil
  then show ?case by simp
next
  case (Cons q qs)
  have pq: "p = Some q" and d: "chain nxt (nxt q) qs" using Cons.prems(1) by simp_all
  show ?case
  proof (cases "qs = []")
    case True
    with Cons.prems pq d show ?thesis by auto
  next
    case False
    have l: "last (q # qs) = last qs" using False by simp
    have "q \<noteq> last qs"
    proof
      assume e: "q = last qs"
      from chain_last_next [OF d False] e have "nxt q = None" by simp
      with d False show False by (cases qs) auto
    qed
    then have same: "(nxt(last qs := Some p_font)) q = nxt q" by simp
    have nin: "p_font \<notin> set qs" using Cons.prems(3) by simp
    note ih = Cons.IH [OF d False nin Cons.prems(4)]
    have "chain (nxt(last qs := Some p_font)) ((nxt(last qs := Some p_font)) q) (qs @ [p_font])"
      unfolding same by (rule ih)
    then show ?thesis
      unfolding l append_Cons chain.simps(2) by (rule conjI [OF pq])
  qed
qed

lemma chain_keeps:
  assumes "chain nxt p xs" and "l \<notin> set xs"
  shows "chain (nxt(l := v)) p xs"
  using assms by (induction xs arbitrary: p) auto

lemma AppendFont_links_refines:
  assumes rep: "lists_of links mem"
    and fresh: "\<forall>fam. p_font \<notin> set (p_fonts (family_at mem fam))"
    and new: "nexts links p_font = None"
  shows "\<exists>links'. AppendFont_links links (Head_of parent) p_font = Some links'
           \<and> lists_of links' (AppendFont mem parent p_font)"
proof -
  let ?L = "\<lambda>fam. p_fonts (family_at mem fam)"
  let ?nxt = "nexts links"
  have ch: "chain ?nxt (heads links fam) (?L fam)" for fam
    using rep by (simp add: lists_of_def)
  have "chain ?nxt (read_cell links (Head_of parent)) (?L parent)"
    using ch by (simp add: read_cell_def)
  from AppendFont_links_walk [OF this]
  have run: "AppendFont_links links (Head_of parent) p_font =
     Some (write_cell links (if ?L parent = [] then Head_of parent else Next_of (last (?L parent)))
             (Some p_font))" .
  show ?thesis
  proof (cases "?L parent")
    case Nil
    let ?links' = "links\<lparr>heads := (heads links)(parent := Some p_font)\<rparr>"
    have "lists_of ?links' (AppendFont mem parent p_font)"
      unfolding lists_of_def
    proof
      fix fam
      show "chain (nexts ?links') (heads ?links' fam)
              (p_fonts (family_at (AppendFont mem parent p_font) fam))"
        using ch [of fam] Nil new
        by (cases "fam = parent") (simp_all add: AppendFont_def set_family_fonts_def)
    qed
    with run Nil show ?thesis by (simp add: write_cell_def)
  next
    case (Cons first others)
    let ?l = "last (?L parent)"
    let ?links' = "links\<lparr>nexts := (?nxt)(?l := Some p_font)\<rparr>"
    have ne: "?L parent \<noteq> []" using Cons by simp
    have lnone: "?nxt ?l = None" using chain_last_next [OF ch ne] .
    have "lists_of ?links' (AppendFont mem parent p_font)"
      unfolding lists_of_def
    proof
      fix fam
      have lists: "p_fonts (family_at (AppendFont mem parent p_font) fam) =
          (if ?L fam \<noteq> [] \<and> last (?L fam) = ?l then ?L fam @ [p_font] else ?L fam)"
        using Cons by (simp add: AppendFont_def)
      show "chain (nexts ?links') (heads ?links' fam)
              (p_fonts (family_at (AppendFont mem parent p_font) fam))"
      proof (cases "?L fam \<noteq> [] \<and> last (?L fam) = ?l")
        case True
        from chain_append_new [OF ch [of fam]] True fresh new
        have "chain (?nxt(last (?L fam) := Some p_font)) (heads links fam) (?L fam @ [p_font])"
          by simp
        with True lists show ?thesis by simp
      next
        case False
        have "?l \<notin> set (?L fam)"
        proof
          assume "?l \<in> set (?L fam)"
          from chain_ends_at [OF ch this lnone] this False show False by auto
        qed
        from chain_keeps [OF ch this, of "Some p_font"]
        have keep: "chain (nexts ?links') (heads ?links' fam) (?L fam)" by simp
        have "p_fonts (family_at (AppendFont mem parent p_font) fam) = ?L fam"
          unfolding lists using False by (rule if_not_P)
        with keep show ?thesis by (simp only:)
      qed
    qed
    with run Cons show ?thesis by (simp add: write_cell_def)
  qed
qed

lemma chain_head:
  "chain nxt p xs \<Longrightarrow> p = (case xs of [] \<Rightarrow> None | q # qs \<Rightarrow> Some q)"
  by (cases xs) auto

lemma lists_of_fonts:
  "lists_of links (mem\<lparr>font_at := fonts\<rparr>) = lists_of links mem"
  by (simp add: lists_of_def)

lemma NewFont_links_refines:
  assumes rep: "lists_of links mem"
    and fresh: "\<forall>fam. p_font \<notin> set (p_fonts (family_at mem fam))"
  shows "\<exists>links'.
           NewFont_links links
             (font_at (snd (NewFont (Some p_font) mem fontfile index bold italic (Some parent))))
             p_font bold italic parent = Some links'
           \<and> lists_of links'
                (snd (NewFont (Some p_font) mem fontfile index bold italic (Some parent)))"
proof -
  define mem1 where "mem1 = mem\<lparr>font_at := (font_at mem)(p_font :=
                       \<lparr>psz_fontfile = fontfile, i_index = index, b_bold = bold,
                        b_italic = italic, p_face = None\<rparr>)\<rparr>"
  define links0 where "links0 = links\<lparr>nexts := (nexts links)(p_font := None)\<rparr>"
  let ?L = "p_fonts (family_at mem1 parent)"
  let ?run = "NewFont (Some p_font) mem fontfile index bold italic (Some parent)"
  let ?front = "?L \<noteq> []
                \<and> (b_bold (font_at mem1 (hd ?L)) \<or> b_italic (font_at mem1 (hd ?L)))
                \<and> \<not> bold \<and> \<not> italic"
  have run_eq: "?run = (if ?front then (Some p_font, set_family_fonts mem1 parent (p_font # ?L))
                        else (Some p_font, AppendFont mem1 parent p_font))"
    unfolding NewFont_def Let_def option.case mem1_def ..
  have fresh1: "\<forall>fam. p_font \<notin> set (p_fonts (family_at mem1 fam))"
    using fresh by (simp add: mem1_def)
  have new: "nexts links0 p_font = None" by (simp add: links0_def)
  have ch: "chain (nexts links0) (heads links0 fam) (p_fonts (family_at mem1 fam))" for fam
  proof -
    have "chain (nexts links) (heads links fam) (p_fonts (family_at mem fam))"
      using rep by (simp add: lists_of_def)
    moreover have "p_font \<notin> set (p_fonts (family_at mem fam))" using fresh by simp
    ultimately have "chain ((nexts links)(p_font := None)) (heads links fam)
                       (p_fonts (family_at mem fam))"
      by (rule chain_keeps)
    then show ?thesis by (simp add: links0_def mem1_def)
  qed
  then have rep1: "lists_of links0 mem1" by (simp add: lists_of_def)
  have head: "heads links0 parent = (case ?L of [] \<Rightarrow> None | q # qs \<Rightarrow> Some q)"
    using chain_head [OF ch] .
  have fonts: "font_at (snd ?run) = font_at mem1"
    unfolding run_eq by (simp add: set_family_fonts_def AppendFont_def split: list.splits)
  have body: "NewFont_links links (font_at (snd ?run)) p_font bold italic parent =
     (case heads links0 parent of
        None \<Rightarrow> AppendFont_links links0 (Head_of parent) p_font
      | Some first \<Rightarrow>
          if (b_bold (font_at mem1 first) \<or> b_italic (font_at mem1 first)) \<and> \<not> bold \<and> \<not> italic
          then Some (links0\<lparr>heads := (heads links0)(parent := Some p_font),
                            nexts := (nexts links0)(p_font := Some first)\<rparr>)
          else AppendFont_links links0 (Head_of parent) p_font)"
    unfolding fonts NewFont_links_def Let_def links0_def ..
  show ?thesis
  proof (cases ?front)
    case False
    have run: "snd ?run = AppendFont mem1 parent p_font"
      unfolding run_eq if_not_P [OF False] by simp
    have links: "NewFont_links links (font_at (snd ?run)) p_font bold italic parent
                 = AppendFont_links links0 (Head_of parent) p_font"
      using False unfolding body head by (cases ?L) auto
    from AppendFont_links_refines [OF rep1 fresh1 new, of parent] obtain links' where
      a: "AppendFont_links links0 (Head_of parent) p_font = Some links'"
      and b: "lists_of links' (AppendFont mem1 parent p_font)" by blast
    have "NewFont_links links (font_at (snd ?run)) p_font bold italic parent = Some links'"
      using links a by simp
    moreover have "lists_of links' (snd ?run)" using b run by simp
    ultimately show ?thesis by blast
  next
    case True
    then obtain first others where l: "?L = first # others" by (cases ?L) auto
    let ?links' = "links0\<lparr>heads := (heads links0)(parent := Some p_font),
                           nexts := (nexts links0)(p_font := Some first)\<rparr>"
    have run: "snd ?run = set_family_fonts mem1 parent (p_font # ?L)"
      unfolding run_eq if_P [OF True] by simp
    have links: "NewFont_links links (font_at (snd ?run)) p_font bold italic parent = Some ?links'"
      using True unfolding body head l by simp
    have b: "lists_of ?links' (set_family_fonts mem1 parent (p_font # ?L))"
      unfolding lists_of_def
    proof
      fix fam
      have nin: "p_font \<notin> set (p_fonts (family_at mem1 fam))" using fresh1 by simp
      note keep = chain_keeps [OF ch [of fam] nin, of "Some first"]
      show "chain (nexts ?links') (heads ?links' fam)
              (p_fonts (family_at (set_family_fonts mem1 parent (p_font # ?L)) fam))"
      proof (cases "fam = parent")
        case False
        with keep show ?thesis by (simp add: set_family_fonts_def)
      next
        case True
        have "heads links0 parent = Some first" using head l by simp
        with keep True show ?thesis by (simp add: set_family_fonts_def)
      qed
    qed
    have "lists_of ?links' (snd ?run)" using b run by simp
    with links show ?thesis by blast
  qed
qed

text \<open>The lists of the example state are chains of pointers.\<close>

lemma ex_state_chains: "lists_of ex_links ex_state"
  by (simp add: lists_of_def ex_links_def ex_state_def ex_families_def)

text \<open>
  Claim C9. \<open>NewFont\<close> with a parent family and a new object (an address that is not
  already in the family's list) writes the font and puts it into the list of the
  parent: in front of the list when the font is plain (neither bold nor italic) and the
  first font of the list is bold or italic, at the end of the list in every other case,
  with the fonts that were there in the order they had. A list of the parent in which a
  plain font, if there is one, comes first is again such a list. No other font changes
  and no family changes its name. Of the other families, those whose list ends with
  the last font of the parent's list get the new font at their end as well when it is put
  at the end (they share the end of the chain), whatever their first font is; every
  other list is as it was, and a family that has no font in common with the parent does
  not change.
\<close>

theorem NewFont_regular_first:
  assumes run: "NewFont (Some p_font) mem fontfile index bold italic (Some parent) = (r, mem')"
    and fresh: "p_font \<notin> set (p_fonts (family_at mem parent))"
  shows "r = Some p_font
         \<and> font_at mem' p_font =
             \<lparr>psz_fontfile = fontfile, i_index = index, b_bold = bold, b_italic = italic,
              p_face = None\<rparr>
         \<and> (\<forall>q. q \<noteq> p_font \<longrightarrow> font_at mem' q = font_at mem q)
         \<and> p_fonts (family_at mem' parent) =
             (case p_fonts (family_at mem parent) of
                [] \<Rightarrow> [p_font]
              | first # others \<Rightarrow>
                  if \<not> is_plain (font_at mem first) \<and> \<not> bold \<and> \<not> italic
                  then p_font # first # others
                  else (first # others) @ [p_font])
         \<and> (regular_first mem (p_fonts (family_at mem parent)) \<longrightarrow>
              regular_first mem' (p_fonts (family_at mem' parent)))
         \<and> (\<forall>fam. psz_name (family_at mem' fam) = psz_name (family_at mem fam))
         \<and> (\<forall>fam. fam \<noteq> parent \<longrightarrow>
              p_fonts (family_at mem' fam) =
                (if p_fonts (family_at mem parent) \<noteq> []
                    \<and> \<not> (\<not> is_plain (font_at mem (hd (p_fonts (family_at mem parent))))
                          \<and> \<not> bold \<and> \<not> italic)
                    \<and> p_fonts (family_at mem fam) \<noteq> []
                    \<and> last (p_fonts (family_at mem fam)) = last (p_fonts (family_at mem parent))
                 then p_fonts (family_at mem fam) @ [p_font]
                 else p_fonts (family_at mem fam)))
         \<and> (\<forall>fam. fam \<noteq> parent
                \<and> set (p_fonts (family_at mem fam)) \<inter> set (p_fonts (family_at mem parent)) = {}
              \<longrightarrow> family_at mem' fam = family_at mem fam)"
proof -
  let ?fonts = "p_fonts (family_at mem parent)"
  let ?new = "\<lparr>psz_fontfile = fontfile, i_index = index, b_bold = bold, b_italic = italic,
              p_face = None\<rparr>"
  let ?mem1 = "mem\<lparr>font_at := (font_at mem)(p_font := ?new)\<rparr>"
  let ?front = "?fonts \<noteq> [] \<and> \<not> is_plain (font_at mem (hd ?fonts)) \<and> \<not> bold \<and> \<not> italic"
  have fam1: "family_at ?mem1 = family_at mem" by simp
  have cond: "(?fonts \<noteq> []
               \<and> (b_bold (font_at ?mem1 (hd ?fonts)) \<or> b_italic (font_at ?mem1 (hd ?fonts)))
               \<and> \<not> bold \<and> \<not> italic) = ?front"
  proof (cases ?fonts)
    case Nil
    then show ?thesis by simp
  next
    case (Cons first rest)
    then have "hd ?fonts \<noteq> p_font" using fresh by auto
    then show ?thesis by (simp add: is_plain_def)
  qed
  have mem': "mem' = (if ?front then set_family_fonts ?mem1 parent (p_font # ?fonts)
                      else AppendFont ?mem1 parent p_font)"
    and r: "r = Some p_font"
    using run cond unfolding NewFont_def Let_def option.case fam1 by (auto split: if_splits)
  have fonts_eq: "font_at mem' = font_at ?mem1"
    unfolding mem' by (simp add: set_family_fonts_def AppendFont_def split: list.splits)
  have new: "font_at mem' p_font = ?new" unfolding fonts_eq by simp
  have others: "\<forall>q. q \<noteq> p_font \<longrightarrow> font_at mem' q = font_at mem q"
    unfolding fonts_eq by simp
  have names: "\<forall>fam. psz_name (family_at mem' fam) = psz_name (family_at mem fam)"
    unfolding mem' by (simp add: set_family_fonts_def AppendFont_def split: list.splits)
  have list: "p_fonts (family_at mem' parent) =
             (case ?fonts of
                [] \<Rightarrow> [p_font]
              | first # others \<Rightarrow>
                  if \<not> is_plain (font_at mem first) \<and> \<not> bold \<and> \<not> italic
                  then p_font # first # others
                  else (first # others) @ [p_font])"
    unfolding mem' by (cases ?fonts) (simp_all add: set_family_fonts_def AppendFont_def)
  have frame: "\<forall>fam. fam \<noteq> parent \<longrightarrow>
              p_fonts (family_at mem' fam) =
                (if ?fonts \<noteq> []
                    \<and> \<not> (\<not> is_plain (font_at mem (hd ?fonts)) \<and> \<not> bold \<and> \<not> italic)
                    \<and> p_fonts (family_at mem fam) \<noteq> []
                    \<and> last (p_fonts (family_at mem fam)) = last ?fonts
                 then p_fonts (family_at mem fam) @ [p_font]
                 else p_fonts (family_at mem fam))"
    unfolding mem' by (cases ?fonts) (simp_all add: set_family_fonts_def AppendFont_def)
  have apart: "\<forall>fam. fam \<noteq> parent
                \<and> set (p_fonts (family_at mem fam)) \<inter> set ?fonts = {}
              \<longrightarrow> family_at mem' fam = family_at mem fam"
  proof (intro allI impI)
    fix fam
    assume a: "fam \<noteq> parent \<and> set (p_fonts (family_at mem fam)) \<inter> set ?fonts = {}"
    have "\<not> (?fonts \<noteq> [] \<and> p_fonts (family_at mem fam) \<noteq> []
              \<and> last (p_fonts (family_at mem fam)) = last ?fonts)"
    proof
      assume b: "?fonts \<noteq> [] \<and> p_fonts (family_at mem fam) \<noteq> []
              \<and> last (p_fonts (family_at mem fam)) = last ?fonts"
      then have "last ?fonts \<in> set ?fonts" "last ?fonts \<in> set (p_fonts (family_at mem fam))"
        using last_in_set [of ?fonts] last_in_set [of "p_fonts (family_at mem fam)"] by auto
      with a show False by auto
    qed
    with a show "family_at mem' fam = family_at mem fam"
      unfolding mem' by (cases ?fonts) (auto simp: set_family_fonts_def AppendFont_def)
  qed
  have inv: "regular_first mem' (p_fonts (family_at mem' parent))"
    if rf: "regular_first mem ?fonts"
  proof (cases ?fonts)
    case Nil
    with list show ?thesis by (simp add: regular_first_def)
  next
    case (Cons first rest)
    have keep: "font_at mem' q = font_at mem q" if "q \<in> set ?fonts" for q
      using that fresh others by auto
    show ?thesis
    proof (cases "\<not> is_plain (font_at mem first) \<and> \<not> bold \<and> \<not> italic")
      case True
      with list Cons have "p_fonts (family_at mem' parent) = p_font # first # rest" by simp
      moreover have "is_plain (font_at mem' p_font)" using new True by (simp add: is_plain_def)
      ultimately show ?thesis by (simp add: regular_first_def)
    next
      case False
      with list Cons have l: "p_fonts (family_at mem' parent) = first # (rest @ [p_font])" by simp
      have first: "font_at mem' first = font_at mem first" using keep Cons by simp
      show ?thesis
      proof (cases "is_plain (font_at mem first)")
        case True
        with l first show ?thesis by (simp add: regular_first_def)
      next
        case styled: False
        with False have nb: "bold \<or> italic" by blast
        from rf Cons styled have "\<forall>q \<in> set ?fonts. \<not> is_plain (font_at mem q)"
          by (auto simp: regular_first_def)
        with keep have "\<forall>q \<in> set ?fonts. \<not> is_plain (font_at mem' q)" by simp
        moreover have "\<not> is_plain (font_at mem' p_font)" using new nb by (auto simp: is_plain_def)
        ultimately have "\<forall>q \<in> set (first # (rest @ [p_font])). \<not> is_plain (font_at mem' q)"
          using Cons by auto
        with l show ?thesis by (auto simp: regular_first_def)
      qed
    qed
  qed
  from r new others list inv names frame apart show ?thesis by blast
qed

theorem NewFont_regular_first_witness:
  "p_fonts (family_at ex_state 7) = [13] \<and> \<not> is_plain (font_at ex_state 13)
   \<and> regular_first ex_state (p_fonts (family_at ex_state 7))
   \<and> p_fonts (family_at (snd (NewFont (Some 30) ex_state ''n.ttf'' 0 False False (Some 7))) 7)
       = [30, 13]
   \<and> regular_first (snd (NewFont (Some 30) ex_state ''n.ttf'' 0 False False (Some 7)))
        (p_fonts (family_at (snd (NewFont (Some 30) ex_state ''n.ttf'' 0 False False (Some 7))) 7))
   \<and> p_fonts (family_at (snd (NewFont (Some 30) ex_state ''n.ttf'' 0 False False (Some 7))) 1)
       = [10, 11, 12, 13]
   \<and> p_fonts (family_at ex_state 1) = [10, 11, 12, 13]
   \<and> p_fonts (family_at (snd (NewFont (Some 31) ex_state ''x.ttf'' 0 True False (Some 1))) 1)
       = [10, 11, 12, 13, 31]
   \<and> p_fonts (family_at (snd (NewFont (Some 31) ex_state ''x.ttf'' 0 True False (Some 1))) 7)
       = [13, 31]
   \<and> family_at (snd (NewFont (Some 31) ex_state ''x.ttf'' 0 True False (Some 1))) 2
       = family_at ex_state 2
   \<and> p_fonts (family_at (snd (NewFont (Some 32) ex_state ''p.ttf'' 0 False False (Some 1))) 1)
       = [10, 11, 12, 13, 32]
   \<and> p_fonts (family_at (snd (NewFont (Some 32) ex_state ''p.ttf'' 0 False False (Some 1))) 7)
       = [13, 32]
   \<and> \<not> regular_first (snd (NewFont (Some 32) ex_state ''p.ttf'' 0 False False (Some 1)))
          (p_fonts (family_at (snd (NewFont (Some 32) ex_state ''p.ttf'' 0 False False (Some 1))) 7))"
proof -
  let ?run7 = "NewFont (Some 30) ex_state ''n.ttf'' 0 False False (Some 7)"
  let ?run1 = "NewFont (Some 31) ex_state ''x.ttf'' 0 True False (Some 1)"
  have run7: "?run7 = (fst ?run7, snd ?run7)" and run1: "?run1 = (fst ?run1, snd ?run1)"
    by simp_all
  have fonts7: "p_fonts (family_at ex_state 7) = [13]"
    and fonts1: "p_fonts (family_at ex_state 1) = [10, 11, 12, 13]"
    and fonts2: "p_fonts (family_at ex_state 2) = [20]"
    by (simp_all add: ex_state_def ex_families_def)
  have fresh7: "30 \<notin> set (p_fonts (family_at ex_state 7))"
    and fresh1: "31 \<notin> set (p_fonts (family_at ex_state 1))"
    unfolding fonts7 fonts1 by simp_all
  have styled: "\<not> is_plain (font_at ex_state 13)" and plain: "is_plain (font_at ex_state 10)"
    by (simp_all add: is_plain_def ex_state_def ex_fonts_def ex_font_def)
  have rf: "regular_first ex_state (p_fonts (family_at ex_state 7))"
    unfolding fonts7 using styled by (simp add: regular_first_def)
  note seven = NewFont_regular_first [OF run7 fresh7]
  note one = NewFont_regular_first [OF run1 fresh1]
  have l7: "p_fonts (family_at (snd ?run7) 7) = [30, 13]"
    using seven [THEN conjunct2, THEN conjunct2, THEN conjunct2, THEN conjunct1] styled
    unfolding fonts7 by simp
  have rf7: "regular_first (snd ?run7) (p_fonts (family_at (snd ?run7) 7))"
    using seven [THEN conjunct2, THEN conjunct2, THEN conjunct2, THEN conjunct2, THEN conjunct1]
      rf by simp
  have "(1::nat) \<noteq> 7" by simp
  from seven [THEN conjunct2, THEN conjunct2, THEN conjunct2, THEN conjunct2, THEN conjunct2,
      THEN conjunct2, THEN conjunct1, THEN spec, THEN mp, OF this]
  have l71: "p_fonts (family_at (snd ?run7) 1) = [10, 11, 12, 13]"
    using styled unfolding fonts7 fonts1 by simp
  have l1: "p_fonts (family_at (snd ?run1) 1) = [10, 11, 12, 13, 31]"
    using one [THEN conjunct2, THEN conjunct2, THEN conjunct2, THEN conjunct1] plain
    unfolding fonts1 by simp
  have "(7::nat) \<noteq> 1" by simp
  from one [THEN conjunct2, THEN conjunct2, THEN conjunct2, THEN conjunct2, THEN conjunct2,
      THEN conjunct2, THEN conjunct1, THEN spec, THEN mp, OF this]
  have l17: "p_fonts (family_at (snd ?run1) 7) = [13, 31]"
    using plain unfolding fonts7 fonts1 by simp
  have "(2::nat) \<noteq> 1 \<and> set (p_fonts (family_at ex_state 2)) \<inter> set (p_fonts (family_at ex_state 1)) = {}"
    unfolding fonts1 fonts2 by simp
  from one [THEN conjunct2, THEN conjunct2, THEN conjunct2, THEN conjunct2, THEN conjunct2,
      THEN conjunct2, THEN conjunct2, THEN spec, THEN mp, OF this]
  have l12: "family_at (snd ?run1) 2 = family_at ex_state 2" .
  let ?runp = "NewFont (Some 32) ex_state ''p.ttf'' 0 False False (Some 1)"
  have runp: "?runp = (fst ?runp, snd ?runp)" by simp
  have freshp: "32 \<notin> set (p_fonts (family_at ex_state 1))" unfolding fonts1 by simp
  note pl = NewFont_regular_first [OF runp freshp]
  have p1: "p_fonts (family_at (snd ?runp) 1) = [10, 11, 12, 13, 32]"
    using pl [THEN conjunct2, THEN conjunct2, THEN conjunct2, THEN conjunct1] plain
    unfolding fonts1 by simp
  from pl [THEN conjunct2, THEN conjunct2, THEN conjunct2, THEN conjunct2, THEN conjunct2,
      THEN conjunct2, THEN conjunct1, THEN spec, THEN mp, OF \<open>(7::nat) \<noteq> 1\<close>]
  have p7: "p_fonts (family_at (snd ?runp) 7) = [13, 32]"
    using plain unfolding fonts7 fonts1 by simp
  have new32: "is_plain (font_at (snd ?runp) 32)"
    using pl [THEN conjunct2, THEN conjunct1] by (simp add: is_plain_def)
  have "(13::nat) \<noteq> 32" by simp
  from pl [THEN conjunct2, THEN conjunct2, THEN conjunct1, THEN spec, THEN mp, OF this]
  have old13: "\<not> is_plain (font_at (snd ?runp) 13)" using styled by simp
  have broken: "\<not> regular_first (snd ?runp) (p_fonts (family_at (snd ?runp) 7))"
    unfolding p7 using new32 old13 by (simp add: regular_first_def)
  show ?thesis
    by (intro conjI) (fact fonts7 styled rf l7 rf7 l71 fonts1 l1 l17 l12 p1 p7 broken)+
qed
section \<open>The face cache\<close>

subsection \<open>The key determines the source, the index, the size and the width\<close>

lemma digit_char_cases:
  assumes "d < 10"
  shows "isdigit (digit_char d) \<and> (of_char (digit_char d) :: int) - 48 = int d
         \<and> digit_char d \<noteq> CHR '' '' \<and> digit_char d \<noteq> CHR ''-'' \<and> digit_char d \<noteq> CHR ''+''
         \<and> \<not> isspace (digit_char d)"
proof -
  from assms have "d \<in> {0, 1, 2, 3, 4, 5, 6, 7, 8, 9}" by auto
  then show ?thesis
    by (auto simp: digit_char_def isdigit_def isspace_def)
qed

lemma dec_nat_not_empty: "dec_nat n \<noteq> []"
  by (subst dec_nat.simps) simp

lemma dec_nat_chars: "c \<in> set (dec_nat n) \<Longrightarrow> \<exists>d < 10. c = digit_char d"
proof (induction n rule: dec_nat.induct)
  case (1 n)
  show ?case
  proof (cases "n < 10")
    case True
    with "1.prems" show ?thesis by (subst (asm) dec_nat.simps) auto
  next
    case False
    with "1.prems" have "c \<in> set (dec_nat (n div 10)) \<or> c = digit_char (n mod 10)"
      by (subst (asm) dec_nat.simps) auto
    then show ?thesis
    proof
      assume "c \<in> set (dec_nat (n div 10))"
      with "1.IH" False show ?thesis by simp
    next
      assume "c = digit_char (n mod 10)"
      moreover have "n mod 10 < 10" by simp
      ultimately show ?thesis by blast
    qed
  qed
qed

lemma atoi_digits_dec_nat:
  "atoi_digits acc (dec_nat n @ r) = atoi_digits (acc * 10 ^ length (dec_nat n) + int n) r"
proof (induction n arbitrary: acc r rule: dec_nat.induct)
  case (1 n)
  show ?case
  proof (cases "n < 10")
    case True
    then have "dec_nat n = [digit_char n]" by (subst dec_nat.simps) simp
    with True digit_char_cases [of n] show ?thesis by (simp add: mult.commute)
  next
    case False
    then have eq: "dec_nat n = dec_nat (n div 10) @ [digit_char (n mod 10)]"
      by (subst dec_nat.simps) simp
    have d: "n mod 10 < 10" by simp
    have "atoi_digits acc (dec_nat n @ r)
          = atoi_digits acc (dec_nat (n div 10) @ (digit_char (n mod 10) # r))"
      by (simp add: eq)
    also have "\<dots> = atoi_digits (acc * 10 ^ length (dec_nat (n div 10)) + int (n div 10))
                        (digit_char (n mod 10) # r)"
      using "1.IH" [OF False] by simp
    also have "\<dots> = atoi_digits
        (10 * (acc * 10 ^ length (dec_nat (n div 10)) + int (n div 10)) + int (n mod 10)) r"
      using digit_char_cases [OF d] by simp
    also have "10 * (acc * 10 ^ length (dec_nat (n div 10)) + int (n div 10)) + int (n mod 10)
               = acc * 10 ^ length (dec_nat n) + int n"
      by (simp add: eq algebra_simps zdiv_int zmod_int)
    finally show ?thesis .
  qed
qed

lemma atoi_show_int: "atoi (show_int i) = i"
proof -
  obtain c r where cr: "dec_nat (nat \<bar>i\<bar>) = c # r"
    using dec_nat_not_empty [of "nat \<bar>i\<bar>"] by (cases "dec_nat (nat \<bar>i\<bar>)") auto
  then have "c \<in> set (dec_nat (nat \<bar>i\<bar>))" by simp
  then obtain d where d: "d < 10" "c = digit_char d" using dec_nat_chars by blast
  note c = digit_char_cases [OF d(1), folded d(2)]
  have digits: "atoi_digits 0 (dec_nat (nat \<bar>i\<bar>)) = \<bar>i\<bar>"
    using atoi_digits_dec_nat [of 0 "nat \<bar>i\<bar>" "[]"] by simp
  show ?thesis
  proof (cases "i < 0")
    case True
    then have "show_int i = CHR ''-'' # dec_nat (nat \<bar>i\<bar>)" by (simp add: show_int_def)
    with digits True show ?thesis by (simp add: atoi_def isspace_def)
  next
    case False
    then have "show_int i = c # r" using cr by (simp add: show_int_def)
    moreover have "atoi_digits 0 (c # r) = i" using digits cr False by simp
    ultimately show ?thesis using c by (simp add: atoi_def)
  qed
qed

lemma show_int_inj: "show_int i = show_int j \<Longrightarrow> i = j"
  by (metis atoi_show_int)

lemma show_int_no_space: "CHR '' '' \<notin> set (show_int i)"
proof
  assume a: "CHR '' '' \<in> set (show_int i)"
  then have "CHR '' '' \<in> set (dec_nat (nat \<bar>i\<bar>))"
    by (auto simp: show_int_def split: if_splits)
  then obtain d where "d < 10" "CHR '' '' = digit_char d" using dec_nat_chars by blast
  with digit_char_cases [of d] show False by simp
qed

lemma split_at_first_space:
  assumes "a @ CHR '' '' # u = b @ CHR '' '' # v"
    and "CHR '' '' \<notin> set a" and "CHR '' '' \<notin> set b"
  shows "a = b \<and> u = v"
proof -
  have "takeWhile (\<lambda>c. c \<noteq> CHR '' '') (a @ CHR '' '' # u) = a"
    using assms(2) by (induction a) auto
  moreover have "takeWhile (\<lambda>c. c \<noteq> CHR '' '') (b @ CHR '' '' # v) = b"
    using assms(3) by (induction b) auto
  ultimately have "a = b" using assms(1) by simp
  with assms(1) show ?thesis by simp
qed

lemma face_key_inj:
  assumes "face_key f i sz w = face_key f' i' sz' w'"
  shows "f = f' \<and> i = i' \<and> sz = sz' \<and> w = w'"
proof -
  let ?r = "\<lambda>x. rev (show_int x)"
  have ns: "\<And>x. CHR '' '' \<notin> set (?r x)" using show_int_no_space by simp
  from assms have "rev (face_key f i sz w) = rev (face_key f' i' sz' w')" by simp
  then have e1: "?r w @ CHR '' '' # (CHR ''-'' # CHR '' '' # ?r sz @ '' - '' @ ?r i @ '' - '' @ rev f)
               = ?r w' @ CHR '' '' # (CHR ''-'' # CHR '' '' # ?r sz' @ '' - '' @ ?r i' @ '' - '' @ rev f')"
    by (simp add: face_key_def)
  from split_at_first_space [OF e1 ns ns]
  have w: "?r w = ?r w'"
    and e2: "?r sz @ CHR '' '' # (CHR ''-'' # CHR '' '' # ?r i @ '' - '' @ rev f)
           = ?r sz' @ CHR '' '' # (CHR ''-'' # CHR '' '' # ?r i' @ '' - '' @ rev f')"
    by simp_all
  from split_at_first_space [OF e2 ns ns]
  have sz: "?r sz = ?r sz'"
    and e3: "?r i @ CHR '' '' # (CHR ''-'' # CHR '' '' # rev f)
           = ?r i' @ CHR '' '' # (CHR ''-'' # CHR '' '' # rev f')"
    by simp_all
  from split_at_first_space [OF e3 ns ns]
  have i: "?r i = ?r i'" and f: "rev f = rev f'" by simp_all
  from w sz i f show ?thesis by (auto dest: show_int_inj)
qed

subsection \<open>The three outcomes of LoadFace\<close>

lemma ConvertToLiveSize_same:
  "fmt_out_video_i_height s' = fmt_out_video_i_height s \<Longrightarrow>
   i_scale (p_sys s') = i_scale (p_sys s) \<Longrightarrow>
   ConvertToLiveSize E s' st = ConvertToLiveSize E s st"
proof -
  assume h: "fmt_out_video_i_height s' = fmt_out_video_i_height s"
    and sc: "i_scale (p_sys s') = i_scale (p_sys s)"
  show ?thesis unfolding ConvertToLiveSize_def h sc ..
qed

lemma style_key_same:
  "fmt_out_video_i_height s' = fmt_out_video_i_height s \<Longrightarrow>
   i_scale (p_sys s') = i_scale (p_sys s) \<Longrightarrow>
   style_key E s' fontfile i_idx st = style_key E s fontfile i_idx st"
  by (simp add: style_key_def ConvertToLiveSize_same [of s' s])

lemma style_key_set_library [simp]:
  "style_key E (set_library s lib) fontfile i_idx st = style_key E s fontfile i_idx st"
  by (rule style_key_same) (simp_all add: set_library_def)

lemma LoadFace_hit:
  "face_map (p_sys s) (style_key E s fontfile i_idx st) = Some face \<Longrightarrow>
   LoadFace E s fontfile i_idx st = (Some face, s)"
  by (simp add: LoadFace_def style_key_def Let_def)



lemma LoadFace_unfold:
  "LoadFace E s fontfile i_idx st =
     (case face_map (p_sys s) (style_key E s fontfile i_idx st) of
        Some face \<Rightarrow> (Some face, s)
      | None \<Rightarrow>
          (case open_source E (p_sys s) fontfile i_idx of
             (None, lib1) \<Rightarrow> (None, set_library s lib1)
           | (Some face, lib1) \<Rightarrow>
               (case FT_Select_Charmap E lib1 face of
                  (charmap_err, lib2) \<Rightarrow>
                    if charmap_err then (None, set_library s (FT_Done_Face E lib2 face))
                    else
                      (case FT_Set_Pixel_Sizes E lib2 face
                              (live_width st (ConvertToLiveSize E s st))
                              (ConvertToLiveSize E s st) of
                         (size_err, lib3) \<Rightarrow>
                           if size_err
                           then (None, set_library s (FT_Done_Face E lib3 face))
                           else (Some face,
                                 s\<lparr>p_sys := (p_sys s)
                                   \<lparr>p_library := lib3,
                                    face_map := (face_map (p_sys s))
                                      (style_key E s fontfile i_idx st \<mapsto> face)\<rparr>\<rparr>)))))"
  unfolding LoadFace_def style_key_def Let_def ..

lemma LoadFace_miss_fails:
  assumes miss: "face_map (p_sys s) (style_key E s fontfile i_idx st) = None"
    and fails: "face_open_fails E s fontfile i_idx st"
  shows "\<exists>lib. LoadFace E s fontfile i_idx st = (None, set_library s lib)"
proof -
  obtain r lib1 where o: "open_source E (p_sys s) fontfile i_idx = (r, lib1)"
    by (cases "open_source E (p_sys s) fontfile i_idx") auto
  show ?thesis
  proof (cases r)
    case None
    have "LoadFace E s fontfile i_idx st = (None, set_library s lib1)"
      unfolding LoadFace_unfold miss o None by simp
    then show ?thesis ..
  next
    case (Some face)
    obtain cerr lib2 where c: "FT_Select_Charmap E lib1 face = (cerr, lib2)"
      by (cases "FT_Select_Charmap E lib1 face") auto
    obtain serr lib3 where z: "FT_Set_Pixel_Sizes E lib2 face
        (live_width st (ConvertToLiveSize E s st)) (ConvertToLiveSize E s st) = (serr, lib3)"
      by (cases "FT_Set_Pixel_Sizes E lib2 face
        (live_width st (ConvertToLiveSize E s st)) (ConvertToLiveSize E s st)") auto
    have "cerr \<or> serr"
      using fails o Some c z by (simp add: face_open_fails_def)
    then have "LoadFace E s fontfile i_idx st = (None, set_library s (FT_Done_Face E lib2 face))
       \<or> LoadFace E s fontfile i_idx st = (None, set_library s (FT_Done_Face E lib3 face))"
      using miss o Some c z by (cases cerr) (simp_all add: LoadFace_unfold)
    then show ?thesis by blast
  qed
qed

lemma LoadFace_miss_opens:
  assumes miss: "face_map (p_sys s) (style_key E s fontfile i_idx st) = None"
    and ok: "\<not> face_open_fails E s fontfile i_idx st"
  shows "\<exists>face lib. fst (open_source E (p_sys s) fontfile i_idx) = Some face
     \<and> LoadFace E s fontfile i_idx st =
         (Some face,
          s\<lparr>p_sys := (p_sys s)\<lparr>p_library := lib,
               face_map := (face_map (p_sys s))(style_key E s fontfile i_idx st \<mapsto> face)\<rparr>\<rparr>)"
proof -
  obtain r lib1 where o: "open_source E (p_sys s) fontfile i_idx = (r, lib1)"
    by (cases "open_source E (p_sys s) fontfile i_idx") auto
  from ok o obtain face where r: "r = Some face"
    by (cases r) (simp_all add: face_open_fails_def)
  obtain cerr lib2 where c: "FT_Select_Charmap E lib1 face = (cerr, lib2)"
    by (cases "FT_Select_Charmap E lib1 face") auto
  obtain serr lib3 where z: "FT_Set_Pixel_Sizes E lib2 face
      (live_width st (ConvertToLiveSize E s st)) (ConvertToLiveSize E s st) = (serr, lib3)"
    by (cases "FT_Set_Pixel_Sizes E lib2 face
      (live_width st (ConvertToLiveSize E s st)) (ConvertToLiveSize E s st)") auto
  have "\<not> cerr \<and> \<not> serr"
    using ok o r c z by (simp add: face_open_fails_def)
  then have "LoadFace E s fontfile i_idx st =
         (Some face,
          s\<lparr>p_sys := (p_sys s)\<lparr>p_library := lib3,
               face_map := (face_map (p_sys s))(style_key E s fontfile i_idx st \<mapsto> face)\<rparr>\<rparr>)"
    using miss o r c z by (simp add: LoadFace_unfold)
  moreover have "fst (open_source E (p_sys s) fontfile i_idx) = Some face"
    using o r by simp
  ultimately show ?thesis by blast
qed

lemma LoadFace_face_map:
  assumes run: "LoadFace E s fontfile i_idx st = (r, s1)"
  shows "(\<forall>k f. face_map (p_sys s) k = Some f \<longrightarrow> face_map (p_sys s1) k = Some f)
         \<and> (\<forall>k. k \<noteq> style_key E s fontfile i_idx st \<longrightarrow>
                face_map (p_sys s1) k = face_map (p_sys s) k)
         \<and> (r = None \<longrightarrow> face_map (p_sys s1) = face_map (p_sys s))
         \<and> (\<forall>face. r = Some face \<longrightarrow>
                face_map (p_sys s1) (style_key E s fontfile i_idx st) = Some face)"
proof (cases "face_map (p_sys s) (style_key E s fontfile i_idx st)")
  case (Some face)
  from LoadFace_hit [OF Some] run show ?thesis using Some by auto
next
  case None
  show ?thesis
  proof (cases "face_open_fails E s fontfile i_idx st")
    case True
    from LoadFace_miss_fails [OF None True] run show ?thesis
      by (auto simp: set_library_def)
  next
    case False
    from LoadFace_miss_opens [OF None False] run None show ?thesis
      by auto
  qed
qed

lemma bad_attachment_index_fails:
  "take 2 fontfile = '':/'' \<Longrightarrow>
   atoi (drop 2 fontfile) < 0
     \<or> int (length (pp_font_attachments (p_sys s))) \<le> atoi (drop 2 fontfile) \<Longrightarrow>
   face_open_fails E s fontfile i_idx st"
  by (auto simp: face_open_fails_def open_source_def Let_def)

lemma LoadFace_handles_distinct:
  assumes inv: "handles_distinct s"
    and fresh: "\<forall>f. fst (open_source E (p_sys s) fontfile i_idx) = Some f \<longrightarrow>
                    f \<notin> ran (face_map (p_sys s))"
    and run: "LoadFace E s fontfile i_idx st = (r, s1)"
  shows "handles_distinct s1"
proof (cases "face_map (p_sys s) (style_key E s fontfile i_idx st)")
  case (Some face)
  from LoadFace_hit [OF Some] run inv show ?thesis by simp
next
  case None
  show ?thesis
  proof (cases "face_open_fails E s fontfile i_idx st")
    case True
    from LoadFace_miss_fails [OF None True] run inv show ?thesis
      by (auto simp: handles_distinct_def set_library_def)
  next
    case False
    from LoadFace_miss_opens [OF None False] run obtain face lib where
      o: "fst (open_source E (p_sys s) fontfile i_idx) = Some face"
      and s1: "s1 = s\<lparr>p_sys := (p_sys s)\<lparr>p_library := lib,
               face_map := (face_map (p_sys s))(style_key E s fontfile i_idx st \<mapsto> face)\<rparr>\<rparr>"
      by auto
    from fresh o have new: "\<And>k. face_map (p_sys s) k \<noteq> Some face"
      by (auto simp: ran_def)
    show ?thesis
      unfolding handles_distinct_def s1 using inv new
      by (auto simp: handles_distinct_def split: if_splits)
  qed
qed

text \<open>
  Claim C7. \<open>style_key\<close> is the key \<open>LoadFace\<close> computes; it is the same for two
  acquisitions exactly when the source, the index, the pixel size and the pixel width
  are the same. An acquisition whose key is in the cache returns the cached handle and
  leaves the whole state as it is, the library's state included: no source is opened.
  An acquisition that succeeds leaves its handle in the cache under its key, so a second
  acquisition with the same key returns the same handle; no acquisition changes or
  removes an entry that is there, nor touches the entry of another key. For the same
  source and a different pixel size the key is different: when that key was not in the
  cache, the handle of the second acquisition is the one a new open of the source gives,
  and the two handles stay in the cache under their two keys. When the handle a new
  open gives is not already in the cache (the font engine gives a new handle at each
  open), the handles of the cache stay pairwise distinct: no two keys share a handle.
\<close>

theorem LoadFace_same_key_same_handle:
  "(face_map (p_sys s) (style_key E s fontfile i_idx st) = Some face \<longrightarrow>
      LoadFace E s fontfile i_idx st = (Some face, s))
   \<and> (LoadFace E s fontfile i_idx st = (Some face, s1) \<longrightarrow>
        face_map (p_sys s1) (style_key E s fontfile i_idx st) = Some face
        \<and> (\<forall>st'. style_key E s1 fontfile i_idx st' = style_key E s fontfile i_idx st \<longrightarrow>
               LoadFace E s1 fontfile i_idx st' = (Some face, s1)))
   \<and> (LoadFace E s fontfile i_idx st = (r, s1) \<longrightarrow>
        (\<forall>k f. face_map (p_sys s) k = Some f \<longrightarrow> face_map (p_sys s1) k = Some f)
        \<and> (\<forall>k. k \<noteq> style_key E s fontfile i_idx st \<longrightarrow>
               face_map (p_sys s1) k = face_map (p_sys s) k))
   \<and> (style_key E s fontfile i_idx st = style_key E sb fontfileb i_idxb stb \<longleftrightarrow>
        fontfile = fontfileb \<and> i_idx = i_idxb
        \<and> ConvertToLiveSize E s st = ConvertToLiveSize E sb stb
        \<and> live_width st (ConvertToLiveSize E s st) = live_width stb (ConvertToLiveSize E sb stb))
   \<and> (LoadFace E s fontfile i_idx st = (Some face, s1)
        \<and> ConvertToLiveSize E s1 st2 \<noteq> ConvertToLiveSize E s st
        \<and> face_map (p_sys s) (style_key E s1 fontfile i_idx st2) = None
        \<and> LoadFace E s1 fontfile i_idx st2 = (Some face2, s2) \<longrightarrow>
          fst (open_source E (p_sys s1) fontfile i_idx) = Some face2
          \<and> face_map (p_sys s2) (style_key E s fontfile i_idx st) = Some face
          \<and> face_map (p_sys s2) (style_key E s1 fontfile i_idx st2) = Some face2)
   \<and> (handles_distinct s
        \<and> (\<forall>f. fst (open_source E (p_sys s) fontfile i_idx) = Some f \<longrightarrow>
               f \<notin> ran (face_map (p_sys s)))
        \<and> LoadFace E s fontfile i_idx st = (r, s1) \<longrightarrow>
          handles_distinct s1)"
proof (intro conjI impI)
  show "LoadFace E s fontfile i_idx st = (Some face, s)"
    if "face_map (p_sys s) (style_key E s fontfile i_idx st) = Some face"
    using that by (rule LoadFace_hit)
next
  assume run: "LoadFace E s fontfile i_idx st = (Some face, s1)"
  from LoadFace_face_map [OF run]
  show cached: "face_map (p_sys s1) (style_key E s fontfile i_idx st) = Some face" by simp
  show "\<forall>st'. style_key E s1 fontfile i_idx st' = style_key E s fontfile i_idx st \<longrightarrow>
               LoadFace E s1 fontfile i_idx st' = (Some face, s1)"
  proof (intro allI impI)
    fix st' assume "style_key E s1 fontfile i_idx st' = style_key E s fontfile i_idx st"
    with cached have "face_map (p_sys s1) (style_key E s1 fontfile i_idx st') = Some face"
      by simp
    then show "LoadFace E s1 fontfile i_idx st' = (Some face, s1)" by (rule LoadFace_hit)
  qed
next
  assume run: "LoadFace E s fontfile i_idx st = (r, s1)"
  from LoadFace_face_map [OF run]
  show "\<forall>k f. face_map (p_sys s) k = Some f \<longrightarrow> face_map (p_sys s1) k = Some f"
    and "\<forall>k. k \<noteq> style_key E s fontfile i_idx st \<longrightarrow>
               face_map (p_sys s1) k = face_map (p_sys s) k"
    by blast+
next
  show "style_key E s fontfile i_idx st = style_key E sb fontfileb i_idxb stb \<longleftrightarrow>
        fontfile = fontfileb \<and> i_idx = i_idxb
        \<and> ConvertToLiveSize E s st = ConvertToLiveSize E sb stb
        \<and> live_width st (ConvertToLiveSize E s st) = live_width stb (ConvertToLiveSize E sb stb)"
    unfolding style_key_def using face_key_inj by metis
next
  assume h: "LoadFace E s fontfile i_idx st = (Some face, s1)
        \<and> ConvertToLiveSize E s1 st2 \<noteq> ConvertToLiveSize E s st
        \<and> face_map (p_sys s) (style_key E s1 fontfile i_idx st2) = None
        \<and> LoadFace E s1 fontfile i_idx st2 = (Some face2, s2)"
  then have run1: "LoadFace E s fontfile i_idx st = (Some face, s1)"
    and diff: "ConvertToLiveSize E s1 st2 \<noteq> ConvertToLiveSize E s st"
    and miss0: "face_map (p_sys s) (style_key E s1 fontfile i_idx st2) = None"
    and run2: "LoadFace E s1 fontfile i_idx st2 = (Some face2, s2)"
    by simp_all
  have keys: "style_key E s1 fontfile i_idx st2 \<noteq> style_key E s fontfile i_idx st"
    unfolding style_key_def using face_key_inj diff by metis
  note fm1 = LoadFace_face_map [OF run1]
  note fm2 = LoadFace_face_map [OF run2]
  have miss1: "face_map (p_sys s1) (style_key E s1 fontfile i_idx st2) = None"
    using fm1 keys miss0 by simp
  have nofail: "\<not> face_open_fails E s1 fontfile i_idx st2"
    using LoadFace_miss_fails [OF miss1] run2 by auto
  from LoadFace_miss_opens [OF miss1 nofail] run2
  show "fst (open_source E (p_sys s1) fontfile i_idx) = Some face2" by auto
  show "face_map (p_sys s2) (style_key E s fontfile i_idx st) = Some face"
    using fm1 fm2 by simp
  show "face_map (p_sys s2) (style_key E s1 fontfile i_idx st2) = Some face2"
    using fm2 by simp
next
  assume "handles_distinct s
        \<and> (\<forall>f. fst (open_source E (p_sys s) fontfile i_idx) = Some f \<longrightarrow>
               f \<notin> ran (face_map (p_sys s)))
        \<and> LoadFace E s fontfile i_idx st = (r, s1)"
  then show "handles_distinct s1" using LoadFace_handles_distinct by blast
qed

theorem LoadFace_same_key_same_handle_witness:
  "handles_distinct ex_state
   \<and> handles_distinct (snd (LoadFace ex_env ex_state ''d.ttf'' 0 ex_style))
   \<and> fst (LoadFace ex_env ex_state ''d.ttf'' 0 ex_style) = Some 5
   \<and> p_library (p_sys (snd (LoadFace ex_env ex_state ''d.ttf'' 0 ex_style))) = 1
   \<and> LoadFace ex_env (snd (LoadFace ex_env ex_state ''d.ttf'' 0 ex_style)) ''d.ttf'' 0 ex_style
       = (Some 5, snd (LoadFace ex_env ex_state ''d.ttf'' 0 ex_style))
   \<and> ConvertToLiveSize ex_env ex_state ex_style = 20
   \<and> ConvertToLiveSize ex_env (snd (LoadFace ex_env ex_state ''d.ttf'' 0 ex_style))
        (ex_style\<lparr>i_font_size := 30\<rparr>) = 30
   \<and> fst (LoadFace ex_env (snd (LoadFace ex_env ex_state ''d.ttf'' 0 ex_style)) ''d.ttf'' 0
        (ex_style\<lparr>i_font_size := 30\<rparr>)) = Some 15"
proof -
  let ?run1 = "LoadFace ex_env ex_state ''d.ttf'' 0 ex_style"
  have first: "fst ?run1 = Some 5" by code_simp
  have lib: "p_library (p_sys (snd ?run1)) = 1" by code_simp
  have "?run1 = (fst ?run1, snd ?run1)" by (rule prod.collapse [symmetric])
  then have run1: "?run1 = (Some 5, snd ?run1)" unfolding first .
  have key: "style_key ex_env (snd ?run1) ''d.ttf'' 0 ex_style
             = style_key ex_env ex_state ''d.ttf'' 0 ex_style"
    by (rule style_key_same) (use LoadFace_frame [OF run1] in simp_all)
  note again = LoadFace_same_key_same_handle
      [of ex_state ex_env "''d.ttf''" 0 ex_style 5 "snd ?run1",
       THEN conjunct2, THEN conjunct1, THEN mp, OF run1, THEN conjunct2, THEN spec,
       of ex_style, THEN mp, OF key]
  have empty: "face_map (p_sys ex_state) = Map.empty" by (simp add: ex_state_def)
  have d0: "handles_distinct ex_state" by (simp add: handles_distinct_def empty)
  have fresh: "\<forall>f. fst (open_source ex_env (p_sys ex_state) ''d.ttf'' 0) = Some f \<longrightarrow>
                  f \<notin> ran (face_map (p_sys ex_state))"
    by (simp add: empty)
  note LoadFace_same_key_same_handle
      [of ex_state ex_env "''d.ttf''" 0 ex_style 5 "snd ?run1" "Some 5",
       THEN conjunct2, THEN conjunct2, THEN conjunct2, THEN conjunct2, THEN conjunct2,
       THEN mp, OF conjI [OF d0 conjI [OF fresh run1]]]
  then have d1: "handles_distinct (snd ?run1)" .
  have size1: "ConvertToLiveSize ex_env ex_state ex_style = 20" by code_simp
  have size2: "ConvertToLiveSize ex_env (snd ?run1) (ex_style\<lparr>i_font_size := 30\<rparr>) = 30"
    by code_simp
  have third: "fst (LoadFace ex_env (snd ?run1) ''d.ttf'' 0 (ex_style\<lparr>i_font_size := 30\<rparr>))
               = Some 15"
    by code_simp
  show ?thesis
    by (intro conjI) (fact d0 d1 first lib again size1 size2 third)+
qed

text \<open>
  Claim C8. \<open>face_open_fails\<close> holds when the source does not open (an attachment
  index out of range, as \<open>bad_attachment_index_fails\<close> shows, or an error of the font
  engine), when no Unicode character map can be selected or when the pixel size is
  refused. An acquisition whose key is not in the cache and whose open fails returns
  \<^verbatim>\<open>NULL\<close>; the cache is the one it was and only the library's state may have changed,
  so the key is still absent. The next acquisition with the same key goes to the source
  again: it fails when the open fails again, and otherwise returns and caches the
  handle the new open gives.
\<close>

theorem LoadFace_failure_not_cached:
  assumes run: "LoadFace E s fontfile i_idx st = (r, s1)"
    and miss: "face_map (p_sys s) (style_key E s fontfile i_idx st) = None"
    and fails: "face_open_fails E s fontfile i_idx st"
  shows "r = None
         \<and> face_map (p_sys s1) = face_map (p_sys s)
         \<and> (\<exists>lib. s1 = set_library s lib)
         \<and> style_key E s1 fontfile i_idx st = style_key E s fontfile i_idx st
         \<and> face_map (p_sys s1) (style_key E s1 fontfile i_idx st) = None
         \<and> (if face_open_fails E s1 fontfile i_idx st
             then fst (LoadFace E s1 fontfile i_idx st) = None
             else \<exists>face s2. LoadFace E s1 fontfile i_idx st = (Some face, s2)
                    \<and> fst (open_source E (p_sys s1) fontfile i_idx) = Some face
                    \<and> face_map (p_sys s2) (style_key E s fontfile i_idx st) = Some face)"
proof -
  from LoadFace_miss_fails [OF miss fails] run obtain lib where
    r: "r = None" and s1: "s1 = set_library s lib" by auto
  have fm: "face_map (p_sys s1) = face_map (p_sys s)" by (simp add: s1 set_library_def)
  have key: "style_key E s1 fontfile i_idx st = style_key E s fontfile i_idx st"
    by (simp add: s1)
  have miss1: "face_map (p_sys s1) (style_key E s1 fontfile i_idx st) = None"
    using miss fm key by simp
  have retry: "if face_open_fails E s1 fontfile i_idx st
             then fst (LoadFace E s1 fontfile i_idx st) = None
             else \<exists>face s2. LoadFace E s1 fontfile i_idx st = (Some face, s2)
                    \<and> fst (open_source E (p_sys s1) fontfile i_idx) = Some face
                    \<and> face_map (p_sys s2) (style_key E s fontfile i_idx st) = Some face"
  proof (cases "face_open_fails E s1 fontfile i_idx st")
    case True
    from LoadFace_miss_fails [OF miss1 True] show ?thesis using True by auto
  next
    case False
    from LoadFace_miss_opens [OF miss1 False] obtain face lib2 where
      o: "fst (open_source E (p_sys s1) fontfile i_idx) = Some face"
      and l: "LoadFace E s1 fontfile i_idx st =
         (Some face,
          s1\<lparr>p_sys := (p_sys s1)\<lparr>p_library := lib2,
               face_map := (face_map (p_sys s1))(style_key E s1 fontfile i_idx st \<mapsto> face)\<rparr>\<rparr>)"
      by blast
    have "face_map (p_sys (s1\<lparr>p_sys := (p_sys s1)\<lparr>p_library := lib2,
               face_map := (face_map (p_sys s1))(style_key E s1 fontfile i_idx st \<mapsto> face)\<rparr>\<rparr>))
            (style_key E s fontfile i_idx st) = Some face"
      by (simp add: key)
    with o l False show ?thesis by auto
  qed
  from r fm s1 key miss1 retry show ?thesis by blast
qed

theorem LoadFace_failure_not_cached_witness:
  "face_map (p_sys ex_state) (style_key ex_env ex_state ''late.ttf'' 0 ex_style) = None
   \<and> face_open_fails ex_env ex_state ''late.ttf'' 0 ex_style
   \<and> fst (LoadFace ex_env ex_state ''late.ttf'' 0 ex_style) = None
   \<and> face_map (p_sys (snd (LoadFace ex_env ex_state ''late.ttf'' 0 ex_style)))
       = face_map (p_sys ex_state)
   \<and> fst (LoadFace ex_env (snd (LoadFace ex_env ex_state ''late.ttf'' 0 ex_style))
             ''late.ttf'' 0 ex_style) = Some 18
   \<and> face_open_fails ex_env ex_state '':/3'' 0 ex_style
   \<and> fst (LoadFace ex_env ex_state '':/3'' 0 ex_style) = None
   \<and> face_open_fails ex_env ex_state ''nocmap.ttf'' 0 ex_style
   \<and> fst (LoadFace ex_env ex_state ''nocmap.ttf'' 0 ex_style) = None
   \<and> face_open_fails ex_env ex_state ''d.ttf'' 0 (ex_style\<lparr>i_font_size := - 5\<rparr>)
   \<and> fst (LoadFace ex_env ex_state ''d.ttf'' 0 (ex_style\<lparr>i_font_size := - 5\<rparr>)) = None"
proof -
  have empty: "face_map (p_sys ex_state) k = None" for k by (simp add: ex_state_def)
  let ?late = "LoadFace ex_env ex_state ''late.ttf'' 0 ex_style"
  let ?att = "LoadFace ex_env ex_state '':/3'' 0 ex_style"
  let ?cmap = "LoadFace ex_env ex_state ''nocmap.ttf'' 0 ex_style"
  let ?size = "LoadFace ex_env ex_state ''d.ttf'' 0 (ex_style\<lparr>i_font_size := - 5\<rparr>)"
  have f1: "face_open_fails ex_env ex_state ''late.ttf'' 0 ex_style" by code_simp
  have f2: "face_open_fails ex_env ex_state '':/3'' 0 ex_style"
    by (rule bad_attachment_index_fails)
       (simp_all add: ex_state_def atoi_def isspace_def isdigit_def)
  have f3: "face_open_fails ex_env ex_state ''nocmap.ttf'' 0 ex_style" by code_simp
  have f4: "face_open_fails ex_env ex_state ''d.ttf'' 0 (ex_style\<lparr>i_font_size := - 5\<rparr>)"
    by code_simp
  have r1: "?late = (fst ?late, snd ?late)" and r2: "?att = (fst ?att, snd ?att)"
    and r3: "?cmap = (fst ?cmap, snd ?cmap)" and r4: "?size = (fst ?size, snd ?size)"
    by (rule prod.collapse [symmetric])+
  note t1 = LoadFace_failure_not_cached [OF r1 empty f1]
  note t2 = LoadFace_failure_not_cached [OF r2 empty f2]
  note t3 = LoadFace_failure_not_cached [OF r3 empty f3]
  note t4 = LoadFace_failure_not_cached [OF r4 empty f4]
  have retry: "fst (LoadFace ex_env (snd ?late) ''late.ttf'' 0 ex_style) = Some 18"
    by code_simp
  show ?thesis
    by (intro conjI)
       (fact empty f1 f2 f3 f4 retry t1 [THEN conjunct1] t1 [THEN conjunct2, THEN conjunct1]
          t2 [THEN conjunct1] t3 [THEN conjunct1] t4 [THEN conjunct1])+
qed

section \<open>The search of a fallback list\<close>

lemma SearchFallbacks_step:
  "SearchFallbacks E s (p # rest) codepoint =
     (case probe_fallback E s p codepoint of
        (True, s1) \<Rightarrow> (Some p, s1)
      | (False, s1) \<Rightarrow> SearchFallbacks E s1 rest codepoint)"
  by (auto simp: probe_fallback_def split: prod.splits option.splits)

lemma probe_fallback_covered:
  assumes "probe_fallback E s p codepoint = (True, s1)"
  shows "\<exists>font others f. p_fonts (family_at s1 p) = font # others
           \<and> p_face (font_at s1 font) = Some f \<and> FT_Get_Char_Index E f codepoint \<noteq> 0"
proof -
  from assms obtain font s0 f where pop: "populate_fallback E s p = (Some font, s0)"
    and face: "GetFace E s0 font codepoint = (Some f, s1)"
    by (auto simp: probe_fallback_def split: prod.splits option.splits)
  from pop obtain others where fonts: "p_fonts (family_at s0 p) = font # others"
    by (auto simp: populate_fallback_def set_family_fonts_def
        split: list.splits prod.splits option.splits)
  from GetFace_frame(1) [OF face] fonts
  have "p_fonts (family_at s1 p) = font # others" by simp
  moreover from GetFace_frame(5) [OF face]
  have "p_face (font_at s1 font) = Some f \<and> FT_Get_Char_Index E f codepoint \<noteq> 0"
    by (auto split: option.splits if_splits)
  ultimately show ?thesis by blast
qed

lemma SearchFallbacks_None:
  "SearchFallbacks E s forest codepoint = (None, s') \<Longrightarrow>
   probe_all E s forest codepoint = (replicate (length forest) False, s')"
proof (induction forest arbitrary: s)
  case Nil
  then show ?case by simp
next
  case (Cons p rest)
  obtain b s1 where pr: "probe_fallback E s p codepoint = (b, s1)"
    by (cases "probe_fallback E s p codepoint") auto
  from Cons.prems [unfolded SearchFallbacks_step pr]
  have b: "\<not> b" and rest: "SearchFallbacks E s1 rest codepoint = (None, s')"
    by (auto split: bool.splits)
  from Cons.IH [OF rest] pr b show ?case by simp
qed

lemma SearchFallbacks_Some:
  "SearchFallbacks E s forest codepoint = (Some p, s') \<Longrightarrow>
   \<exists>pre post. forest = pre @ p # post
     \<and> probe_all E s (pre @ [p]) codepoint = (replicate (length pre) False @ [True], s')"
proof (induction forest arbitrary: s)
  case Nil
  then show ?case by simp
next
  case (Cons q rest)
  obtain b s1 where pr: "probe_fallback E s q codepoint = (b, s1)"
    by (cases "probe_fallback E s q codepoint") auto
  show ?case
  proof (cases b)
    case True
    with Cons.prems [unfolded SearchFallbacks_step pr] have "p = q" "s' = s1" by auto
    with pr True have "q # rest = [] @ p # rest
      \<and> probe_all E s ([] @ [p]) codepoint = (replicate (length ([]::family_ptr list)) False @ [True], s')"
      by simp
    then show ?thesis by blast
  next
    case False
    with Cons.prems [unfolded SearchFallbacks_step pr]
    have "SearchFallbacks E s1 rest codepoint = (Some p, s')" by auto
    from Cons.IH [OF this] obtain pre post where
      f: "rest = pre @ p # post"
      and pa: "probe_all E s1 (pre @ [p]) codepoint = (replicate (length pre) False @ [True], s')"
      by blast
    from f pa pr False have "q # rest = (q # pre) @ p # post
      \<and> probe_all E s ((q # pre) @ [p]) codepoint
          = (replicate (length (q # pre)) False @ [True], s')"
      by simp
    then show ?thesis by blast
  qed
qed

lemma SearchFallbacks_stops:
  "probe_all E s (pre @ [p]) codepoint = (replicate (length pre) False @ [True], s') \<Longrightarrow>
   SearchFallbacks E s (pre @ p # post) codepoint = (Some p, s')"
proof (induction pre arbitrary: s)
  case Nil
  then show ?case
    unfolding append_Nil SearchFallbacks_step by (auto split: prod.splits bool.splits)
next
  case (Cons q pre)
  obtain b s1 where pr: "probe_fallback E s q codepoint = (b, s1)"
    by (cases "probe_fallback E s q codepoint") auto
  obtain bs s2 where pa: "probe_all E s1 (pre @ [p]) codepoint = (bs, s2)"
    by (cases "probe_all E s1 (pre @ [p]) codepoint") auto
  from Cons.prems pr pa have b: "\<not> b"
    and rest: "probe_all E s1 (pre @ [p]) codepoint = (replicate (length pre) False @ [True], s')"
    by auto
  from Cons.IH [OF rest] b show ?case
    unfolding append_Cons SearchFallbacks_step pr by simp
qed

lemma probe_all_covered_last:
  "probe_all E s (pre @ [p]) codepoint = (bs @ [True], s') \<Longrightarrow> length bs = length pre \<Longrightarrow>
   \<exists>s0. probe_fallback E s0 p codepoint = (True, s')"
proof (induction pre arbitrary: s bs)
  case Nil
  then show ?case by (auto split: prod.splits)
next
  case (Cons q pre)
  obtain b s1 where pr: "probe_fallback E s q codepoint = (b, s1)"
    by (cases "probe_fallback E s q codepoint") auto
  obtain cs s2 where pa: "probe_all E s1 (pre @ [p]) codepoint = (cs, s2)"
    by (cases "probe_all E s1 (pre @ [p]) codepoint") auto
  from Cons.prems(2) obtain b0 bs' where bs: "bs = b0 # bs'" "length bs' = length pre"
    by (cases bs) auto
  from Cons.prems(1) pr pa bs have "probe_all E s1 (pre @ [p]) codepoint = (bs' @ [True], s')"
    by auto
  from Cons.IH [OF this bs(2)] show ?case .
qed

text \<open>
  Claim C5. \<open>SearchFallbacks\<close> returns the first family of the list that covers the
  codepoint, in the sense of \<open>probe_fallback\<close>: every family before it was probed and
  did not cover it, the families after it are not probed (the state returned is the one
  after the probe of the family found, and the result is the same whatever follows that
  family in the list), and in the state returned the family found has a first font whose
  face has a glyph for the codepoint. The result is \<^verbatim>\<open>NULL\<close> exactly when every family
  of the list was probed without success. A family without fonts is looked up by its
  name with \<open>pf_get_family\<close> before it is probed: when the lookup gives a family with
  fonts, the entry takes these fonts; when it gives nothing, or a family without fonts,
  the entry does not cover the codepoint and the search goes on with the next one.
\<close>

theorem SearchFallbacks_first_covering:
  assumes run: "SearchFallbacks E s forest codepoint = (r, s')"
  shows "(case r of
            None \<Rightarrow> probe_all E s forest codepoint = (replicate (length forest) False, s')
          | Some p \<Rightarrow>
              (\<exists>pre post. forest = pre @ p # post
                 \<and> probe_all E s (pre @ [p]) codepoint
                     = (replicate (length pre) False @ [True], s')
                 \<and> (\<forall>post'. SearchFallbacks E s (pre @ p # post') codepoint = (Some p, s')))
              \<and> (\<exists>font others f. p_fonts (family_at s' p) = font # others
                    \<and> p_face (font_at s' font) = Some f
                    \<and> FT_Get_Char_Index E f codepoint \<noteq> 0))
         \<and> (p_fonts (family_at t q) = [] \<longrightarrow>
              (case pf_get_family E (psz_name (family_at t q)) t of
                 (None, t1) \<Rightarrow> probe_fallback E t q codepoint = (False, t1)
               | (Some fam, t1) \<Rightarrow>
                   if p_fonts (family_at t1 fam) = []
                   then probe_fallback E t q codepoint = (False, t1)
                   else populate_fallback E t q
                        = (Some (hd (p_fonts (family_at t1 fam))),
                           set_family_fonts t1 q (p_fonts (family_at t1 fam)))))
         \<and> (p_fonts (family_at t q) \<noteq> [] \<longrightarrow>
              populate_fallback E t q = (Some (hd (p_fonts (family_at t q))), t))"
proof (intro conjI impI)
  show "case r of
            None \<Rightarrow> probe_all E s forest codepoint = (replicate (length forest) False, s')
          | Some p \<Rightarrow>
              (\<exists>pre post. forest = pre @ p # post
                 \<and> probe_all E s (pre @ [p]) codepoint
                     = (replicate (length pre) False @ [True], s')
                 \<and> (\<forall>post'. SearchFallbacks E s (pre @ p # post') codepoint = (Some p, s')))
              \<and> (\<exists>font others f. p_fonts (family_at s' p) = font # others
                    \<and> p_face (font_at s' font) = Some f
                    \<and> FT_Get_Char_Index E f codepoint \<noteq> 0)"
  proof (cases r)
    case None
    with run SearchFallbacks_None show ?thesis by simp
  next
    case (Some p)
    with run have found: "SearchFallbacks E s forest codepoint = (Some p, s')" by simp
    from SearchFallbacks_Some [OF found] obtain pre post where
      f: "forest = pre @ p # post"
      and pa: "probe_all E s (pre @ [p]) codepoint = (replicate (length pre) False @ [True], s')"
      by blast
    have stops: "\<forall>post'. SearchFallbacks E s (pre @ p # post') codepoint = (Some p, s')"
      using SearchFallbacks_stops [OF pa] by blast
    from probe_all_covered_last [OF pa] obtain s0 where
      "probe_fallback E s0 p codepoint = (True, s')" by auto
    from probe_fallback_covered [OF this] f pa stops Some show ?thesis by auto
  qed
next
  assume "p_fonts (family_at t q) = []"
  then show "case pf_get_family E (psz_name (family_at t q)) t of
                 (None, t1) \<Rightarrow> probe_fallback E t q codepoint = (False, t1)
               | (Some fam, t1) \<Rightarrow>
                   if p_fonts (family_at t1 fam) = []
                   then probe_fallback E t q codepoint = (False, t1)
                   else populate_fallback E t q
                        = (Some (hd (p_fonts (family_at t1 fam))),
                           set_family_fonts t1 q (p_fonts (family_at t1 fam)))"
    by (auto simp: probe_fallback_def populate_fallback_def split: prod.splits option.splits list.splits)
next
  assume "p_fonts (family_at t q) \<noteq> []"
  then show "populate_fallback E t q = (Some (hd (p_fonts (family_at t q))), t)"
    by (auto simp: populate_fallback_def split: list.splits)
qed

theorem SearchFallbacks_first_covering_witness:
  "fst (SearchFallbacks ex_env ex_state [4, 5, 3, 1] 0x42) = Some 3
   \<and> fst (probe_all ex_env ex_state [4, 5, 3] 0x42) = [False, False, True]
   \<and> p_fonts (family_at ex_state 5) = []
   \<and> p_fonts (family_at (snd (SearchFallbacks ex_env ex_state [4, 5, 3, 1] 0x42)) 5)
       = [10, 11, 12, 13]
   \<and> p_fonts (family_at (snd (SearchFallbacks ex_env ex_state [4, 5, 3, 1] 0x42)) 4) = []
   \<and> p_fonts (family_at (snd (SearchFallbacks ex_env ex_state [4, 5, 3, 1] 0x42)) 3) \<noteq> []
   \<and> p_library (p_sys (snd (SearchFallbacks ex_env ex_state [4, 5, 3, 1] 0x42))) = 2
   \<and> p_face (font_at (snd (SearchFallbacks ex_env ex_state [4, 5, 3, 1] 0x42)) 11) = None"
proof -
  let ?run = "SearchFallbacks ex_env ex_state [4, 5, 3, 1] 0x42"
  have run: "?run = (fst ?run, snd ?run)" by (rule prod.collapse [symmetric])
  have r: "fst ?run = Some 3" by code_simp
  have probes: "fst (probe_all ex_env ex_state [4, 5, 3] 0x42) = [False, False, True]"
    by code_simp
  have before: "p_fonts (family_at ex_state 5) = []" by (simp add: ex_state_def ex_families_def)
  have after: "p_fonts (family_at (snd ?run) 5) = [10, 11, 12, 13]"
    "p_fonts (family_at (snd ?run) 4) = []" by code_simp+
  have lib: "p_library (p_sys (snd ?run)) = 2" by code_simp
  have untouched: "p_face (font_at (snd ?run) 11) = None" by code_simp
  note inst = SearchFallbacks_first_covering [OF run, THEN conjunct1, unfolded r option.case]
  from inst [THEN conjunct2] have three: "p_fonts (family_at (snd ?run) 3) \<noteq> []" by auto
  show ?thesis
    by (intro conjI) (fact r probes before after lib untouched three)+
qed

section \<open>The selection of a font for a style and a codepoint\<close>

lemma SearchFallbacks_covered:
  assumes "SearchFallbacks E s forest codepoint = (Some p, s')"
  shows "\<exists>font others f. p_fonts (family_at s' p) = font # others
           \<and> p_face (font_at s' font) = Some f \<and> FT_Get_Char_Index E f codepoint \<noteq> 0"
proof -
  from SearchFallbacks_Some [OF assms] obtain pre post where
    "probe_all E s (pre @ [p]) codepoint = (replicate (length pre) False @ [True], s')"
    by blast
  from probe_all_covered_last [OF this] obtain s0 where
    "probe_fallback E s0 p codepoint = (True, s')" by auto
  then show ?thesis by (rule probe_fallback_covered)
qed

lemma SearchFontByFamilyName_fonts:
  "SearchFontByFamilyName E s forest name codepoint = (Some p, s1) \<Longrightarrow>
   p_fonts (family_at s1 p) \<noteq> []"
proof (induction forest arbitrary: s)
  case Nil
  then show ?case by simp
next
  case (Cons q rest)
  show ?case
  proof (cases "strcasecmp_eq (psz_name (family_at s q)) name")
    case False
    with Cons.prems have "SearchFontByFamilyName E s rest name codepoint = (Some p, s1)"
      by simp
    then show ?thesis by (rule Cons.IH)
  next
    case True
    show ?thesis
    proof (cases "p_fonts (family_at s q)")
      case Nil
      with True Cons.prems have "SearchFontByFamilyName E s rest name codepoint = (Some p, s1)"
        by simp
      then show ?thesis by (rule Cons.IH)
    next
      case (Cons font others)
      obtain f s0 where g: "GetFace E s font codepoint = (f, s0)"
        by (cases "GetFace E s font codepoint") auto
      show ?thesis
      proof (cases f)
        case None
        with True Cons g Cons.prems
        have "SearchFontByFamilyName E s0 rest name codepoint = (Some p, s1)" by simp
        then show ?thesis by (rule Cons.IH)
      next
        case (Some face)
        with True Cons g Cons.prems have "p = q" "s1 = s0" by simp_all
        with GetFace_frame(1) [OF g] Cons show ?thesis by simp
      qed
    qed
  qed
qed

lemma same_family_loop_fonts:
  "same_family_loop E s families codepoint = (Some fam, s1) \<Longrightarrow>
   p_fonts (family_at s1 fam) \<noteq> []"
proof (induction families arbitrary: s)
  case Nil
  then show ?case by simp
next
  case (Cons name rest)
  let ?att = "fallbacks_for_key (fallback_map (p_sys s)) FB_LIST_ATTACHMENTS"
  obtain r0 s0 where a: "(if ?att \<noteq> [] then SearchFontByFamilyName E s ?att name codepoint
                          else (None, s)) = (r0, s0)"
    by (cases "if ?att \<noteq> [] then SearchFontByFamilyName E s ?att name codepoint else (None, s)")
       auto
  show ?case
  proof (cases r0)
    case (Some p)
    with a Cons.prems have "fam = p" "s1 = s0" by (simp_all add: Let_def)
    moreover from a Some have "SearchFontByFamilyName E s ?att name codepoint = (Some p, s0)"
      by (auto split: if_splits)
    ultimately show ?thesis using SearchFontByFamilyName_fonts by blast
  next
    case None
    obtain r2 s2 where g: "pf_get_family E name s0 = (r2, s2)"
      by (cases "pf_get_family E name s0") auto
    show ?thesis
    proof (cases r2)
      case n2: None
      with a None g Cons.prems have "same_family_loop E s2 rest codepoint = (Some fam, s1)"
        by (simp add: Let_def)
      then show ?thesis by (rule Cons.IH)
    next
      case (Some p)
      show ?thesis
      proof (cases "p_fonts (family_at s2 p)")
        case Nil
        with a None g Some Cons.prems
        have "same_family_loop E s2 rest codepoint = (Some fam, s1)" by (simp add: Let_def)
        then show ?thesis by (rule Cons.IH)
      next
        case fonts: (Cons font others)
        obtain f s3 where gf: "GetFace E s2 font codepoint = (f, s3)"
          by (cases "GetFace E s2 font codepoint") auto
        show ?thesis
        proof (cases f)
          case nf: None
          with a None g Some fonts gf Cons.prems
          have "same_family_loop E s3 rest codepoint = (Some fam, s1)" by (simp add: Let_def)
          then show ?thesis by (rule Cons.IH)
        next
          case sf: (Some face)
          with a None g Some fonts gf Cons.prems have "fam = p" "s1 = s3"
            by (simp_all add: Let_def)
          with GetFace_frame(1) [OF gf] fonts show ?thesis by simp
        qed
      qed
    qed
  qed
qed

lemma search_fallback_list_fonts:
  "search_fallback_list E s list_key codepoint = (Some fam, s1) \<Longrightarrow>
   p_fonts (family_at s1 fam) \<noteq> []"
  by (auto simp: search_fallback_list_def Let_def split: if_splits dest!: SearchFallbacks_covered)

lemma system_fallbacks_loop_fonts:
  "system_fallbacks_loop E get_fallbacks s families codepoint = (Some fam, s1) \<Longrightarrow>
   p_fonts (family_at s1 fam) \<noteq> []"
proof (induction families arbitrary: s)
  case Nil
  then show ?case by simp
next
  case (Cons name rest)
  obtain fb s0 where g: "get_fallbacks name codepoint s = (fb, s0)"
    by (cases "get_fallbacks name codepoint s") auto
  show ?case
  proof (cases "fb = []")
    case True
    with g Cons.prems
    have "system_fallbacks_loop E get_fallbacks s0 rest codepoint = (Some fam, s1)" by simp
    then show ?thesis by (rule Cons.IH)
  next
    case False
    obtain r2 s2 where sf: "SearchFallbacks E s0 fb codepoint = (r2, s2)"
      by (cases "SearchFallbacks E s0 fb codepoint") auto
    show ?thesis
    proof (cases "\<exists>p. r2 = Some p \<and> p_fonts (family_at s2 p) \<noteq> []")
      case True
      with g False sf Cons.prems show ?thesis by auto
    next
      case no: False
      with g False sf Cons.prems
      have "system_fallbacks_loop E get_fallbacks s2 rest codepoint = (Some fam, s1)"
        by (cases r2) (auto split: if_splits)
      then show ?thesis by (rule Cons.IH)
    qed
  qed
qed

lemma system_fallbacks_fonts:
  "system_fallbacks E s families codepoint = (Some fam, s1) \<Longrightarrow>
   p_fonts (family_at s1 fam) \<noteq> []"
  by (auto simp: system_fallbacks_def split: option.splits dest: system_fallbacks_loop_fonts)

lemma select_best_family_with_fonts:
  assumes "p_fonts (family_at s fam) \<noteq> []"
  shows "select_best E s (Some fam) (STYLE_BOLD \<in> i_style_flags st)
           (STYLE_ITALIC \<in> i_style_flags st) codepoint
         = font_of_family E s fam st codepoint"
  using assms by (simp add: select_best_def font_of_family_def)

lemma font_of_family_Some:
  assumes "p_fonts (family_at s fam) \<noteq> []"
  shows "\<exists>file idx. fst (font_of_family E s fam st codepoint) = Some (file, idx)"
proof -
  let ?b = "STYLE_BOLD \<in> i_style_flags st" and ?i = "STYLE_ITALIC \<in> i_style_flags st"
  obtain best s1 where g: "GetBestFont E s fam ?b ?i codepoint = (best, s1)"
    by (cases "GetBestFont E s fam ?b ?i codepoint") auto
  from assms obtain p0 ps where fonts: "p_fonts (family_at s fam) = p0 # ps"
    by (cases "p_fonts (family_at s fam)") auto
  with g have "GetBestFont_loop E s ?b ?i codepoint (p0 # ps) 0 (Some p0) = (best, s1)"
    by (simp add: GetBestFont_def Let_def)
  then have "best \<noteq> None" by (rule GetBestFont_loop_some)
  then obtain p where "best = Some p" by auto
  with g show ?thesis by (simp add: font_of_family_def)
qed

subsection \<open>The tiers of the search\<close>

lemma first_success_loop:
  assumes nil: "\<And>s. L s [] = (None, s)"
    and step: "\<And>s x xs. L s (x # xs) =
                 (case P x s of (Some r, s1) \<Rightarrow> (Some r, s1) | (None, s1) \<Rightarrow> L s1 xs)"
  shows "first_success P s xs (L s xs)"
proof (induction xs arbitrary: s)
  case Nil
  have "L s [] = (None, s)" by (rule nil)
  then show ?case by (simp add: first_success_def)
next
  case (Cons x xs)
  obtain r s1 where pr: "P x s = (r, s1)" by (cases "P x s") auto
  have st: "L s (x # xs) =
              (case P x s of (Some r, s1) \<Rightarrow> (Some r, s1) | (None, s1) \<Rightarrow> L s1 xs)"
    by (rule step)
  show ?case
  proof (cases r)
    case (Some v)
    have eq: "L s (x # xs) = (Some v, s1)" using st pr Some by simp
    have "\<exists>pre y post. x # xs = pre @ y # post
          \<and> probe_each P s (pre @ [y]) = (replicate (length pre) None @ [Some v], s1)"
      by (rule exI [of _ "[]"], rule exI [of _ x], rule exI [of _ xs]) (use pr Some in simp)
    then show ?thesis unfolding eq by (simp add: first_success_def)
  next
    case None
    obtain r' s' where l: "L s1 xs = (r', s')" by (cases "L s1 xs") auto
    have eq: "L s (x # xs) = (r', s')" using st pr None l by simp
    from Cons.IH [of s1] l have ih: "first_success P s1 xs (r', s')" by simp
    show ?thesis
    proof (cases r')
      case n: None
      with ih have "probe_each P s1 xs = (replicate (length xs) None, s')"
        by (simp add: first_success_def)
      with pr None have "probe_each P s (x # xs) = (replicate (length (x # xs)) None, s')"
        by simp
      then show ?thesis unfolding eq n by (simp add: first_success_def)
    next
      case (Some v)
      with ih obtain pre y post where xs: "xs = pre @ y # post"
        and pe: "probe_each P s1 (pre @ [y]) = (replicate (length pre) None @ [Some v], s')"
        by (auto simp: first_success_def)
      have "\<exists>pre y post. x # xs = pre @ y # post
            \<and> probe_each P s (pre @ [y]) = (replicate (length pre) None @ [Some v], s')"
        by (rule exI [of _ "x # pre"], rule exI [of _ y], rule exI [of _ post])
           (use xs pe pr None in simp)
      then show ?thesis unfolding eq Some by (simp add: first_success_def)
    qed
  qed
qed

lemma GetFace_covers:
  assumes "GetFace E s font codepoint = (f, s')"
    and "p_fonts (family_at s fam) = font # others"
  shows "(f \<noteq> None) = first_font_covers E s' fam codepoint"
proof -
  have "p_fonts (family_at s' fam) = font # others"
    using GetFace_frame(1) [OF assms(1)] assms(2) by simp
  then show ?thesis
    using GetFace_frame(5) [OF assms(1)]
    by (auto simp: first_font_covers_def split: option.splits if_splits)
qed

lemma covered_first_font:
  "\<exists>font others f. p_fonts (family_at s p) = font # others
     \<and> p_face (font_at s font) = Some f \<and> FT_Get_Char_Index E f codepoint \<noteq> 0 \<Longrightarrow>
   first_font_covers E s p codepoint"
  by (auto simp: first_font_covers_def)

lemma SearchFontByFamilyName_step:
  "SearchFontByFamilyName E s (q # rest) name codepoint =
     (case probe_named E s q name codepoint of
        (Some fam, s1) \<Rightarrow> (Some fam, s1)
      | (None, s1) \<Rightarrow> SearchFontByFamilyName E s1 rest name codepoint)"
proof (cases "strcasecmp_eq (psz_name (family_at s q)) name")
  case False
  then show ?thesis by (simp add: probe_named_def)
next
  case True
  show ?thesis
  proof (cases "p_fonts (family_at s q)")
    case Nil
    with True show ?thesis by (simp add: probe_named_def)
  next
    case (Cons font others)
    obtain f s1 where g: "GetFace E s font codepoint = (f, s1)"
      by (cases "GetFace E s font codepoint") auto
    with True Cons show ?thesis by (cases f) (simp_all add: probe_named_def)
  qed
qed

lemma same_family_loop_step:
  "same_family_loop E s (name # rest) codepoint =
     (case probe_same_family E s name codepoint of
        (Some fam, s1) \<Rightarrow> (Some fam, s1)
      | (None, s1) \<Rightarrow> same_family_loop E s1 rest codepoint)"
proof -
  let ?att = "fallbacks_for_key (fallback_map (p_sys s)) FB_LIST_ATTACHMENTS"
  obtain r0 s0 where a: "SearchFontByFamilyName E s ?att name codepoint = (r0, s0)"
    by (cases "SearchFontByFamilyName E s ?att name codepoint") auto
  have att: "(if ?att \<noteq> [] then SearchFontByFamilyName E s ?att name codepoint else (None, s))
             = (r0, s0)"
    using a by (cases "?att = []") auto
  have lhs: "same_family_loop E s (name # rest) codepoint =
     (case (r0, s0) of
        (Some p_family, p_filter1) \<Rightarrow> (Some p_family, p_filter1)
      | (None, p_filter1) \<Rightarrow>
          (case pf_get_family E name p_filter1 of
             (None, p_filter2) \<Rightarrow> same_family_loop E p_filter2 rest codepoint
           | (Some p_family, p_filter2) \<Rightarrow>
               (case p_fonts (family_at p_filter2 p_family) of
                  [] \<Rightarrow> same_family_loop E p_filter2 rest codepoint
                | p_font # _ \<Rightarrow>
                    (case GetFace E p_filter2 p_font codepoint of
                       (None, p_filter3) \<Rightarrow> same_family_loop E p_filter3 rest codepoint
                     | (Some f, p_filter3) \<Rightarrow> (Some p_family, p_filter3)))))"
    unfolding same_family_loop.simps Let_def att ..
  show ?thesis
  proof (cases r0)
    case (Some p)
    then show ?thesis unfolding lhs by (simp add: probe_same_family_def a)
  next
    case None
    obtain r2 s2 where g: "pf_get_family E name s0 = (r2, s2)"
      by (cases "pf_get_family E name s0") auto
    show ?thesis
    proof (cases r2)
      case n2: None
      then show ?thesis
        unfolding lhs by (simp add: probe_same_family_def a None probe_registry_def g)
    next
      case (Some p)
      show ?thesis
      proof (cases "p_fonts (family_at s2 p)")
        case Nil
        then show ?thesis
          unfolding lhs by (simp add: probe_same_family_def a None probe_registry_def g Some)
      next
        case (Cons font others)
        obtain f s3 where gf: "GetFace E s2 font codepoint = (f, s3)"
          by (cases "GetFace E s2 font codepoint") auto
        show ?thesis
          unfolding lhs
          by (cases f)
             (simp_all add: probe_same_family_def a None probe_registry_def g Some Cons gf)
      qed
    qed
  qed
qed

lemma system_fallbacks_loop_step:
  "system_fallbacks_loop E g s (name # rest) codepoint =
     (case probe_system E g s name codepoint of
        (Some fam, s1) \<Rightarrow> (Some fam, s1)
      | (None, s1) \<Rightarrow> system_fallbacks_loop E g s1 rest codepoint)"
proof -
  obtain fb s1 where g: "g name codepoint s = (fb, s1)" by (cases "g name codepoint s") auto
  obtain r2 s2 where sf: "SearchFallbacks E s1 fb codepoint = (r2, s2)"
    by (cases "SearchFallbacks E s1 fb codepoint") auto
  show ?thesis
  proof (cases "fb = []")
    case True
    with g show ?thesis by (simp add: probe_system_def)
  next
    case False
    show ?thesis
    proof (cases r2)
      case None
      with g sf False show ?thesis by (simp add: probe_system_def)
    next
      case (Some p)
      with sf have "p_fonts (family_at s2 p) \<noteq> []"
        using SearchFallbacks_covered [of E s1 fb codepoint p s2] by auto
      with g sf False Some show ?thesis by (simp add: probe_system_def)
    qed
  qed
qed

lemma probe_named_result:
  assumes "probe_named E s q name codepoint = (r, s')"
  shows "r = (if strcasecmp_eq (psz_name (family_at s q)) name
                 \<and> first_font_covers E s' q codepoint then Some q else None)"
proof (cases "strcasecmp_eq (psz_name (family_at s q)) name")
  case False
  with assms show ?thesis by (simp add: probe_named_def)
next
  case True
  show ?thesis
  proof (cases "p_fonts (family_at s q)")
    case Nil
    with assms True show ?thesis by (auto simp: probe_named_def first_font_covers_def)
  next
    case (Cons font others)
    obtain f s1 where g: "GetFace E s font codepoint = (f, s1)"
      by (cases "GetFace E s font codepoint") auto
    from GetFace_covers [OF g Cons] assms True Cons g show ?thesis
      by (auto simp: probe_named_def)
  qed
qed

lemma probe_registry_result:
  assumes "probe_registry E s name codepoint = (r, s')"
  shows "r = (case fst (pf_get_family E name s) of
                None \<Rightarrow> None
              | Some fam \<Rightarrow> if first_font_covers E s' fam codepoint then Some fam else None)"
proof -
  obtain r1 s1 where g: "pf_get_family E name s = (r1, s1)"
    by (cases "pf_get_family E name s") auto
  show ?thesis
  proof (cases r1)
    case None
    with assms g show ?thesis by (simp add: probe_registry_def)
  next
    case (Some fam)
    show ?thesis
    proof (cases "p_fonts (family_at s1 fam)")
      case Nil
      with assms g Some show ?thesis by (auto simp: probe_registry_def first_font_covers_def)
    next
      case (Cons font others)
      obtain f s2 where gf: "GetFace E s1 font codepoint = (f, s2)"
        by (cases "GetFace E s1 font codepoint") auto
      from GetFace_covers [OF gf Cons] assms g Some Cons gf show ?thesis
        by (auto simp: probe_registry_def)
    qed
  qed
qed

lemma probe_system_found:
  assumes "probe_system E g s name codepoint = (Some fam, s')"
  shows "fam \<in> set (fst (g name codepoint s)) \<and> first_font_covers E s' fam codepoint"
proof -
  obtain fb s1 where g: "g name codepoint s = (fb, s1)" by (cases "g name codepoint s") auto
  with assms have sf: "SearchFallbacks E s1 fb codepoint = (Some fam, s')"
    by (simp add: probe_system_def)
  from SearchFallbacks_Some [OF sf] have "fam \<in> set fb" by auto
  moreover from SearchFallbacks_covered [OF sf] have "first_font_covers E s' fam codepoint"
    by (rule covered_first_font)
  ultimately show ?thesis using g by simp
qed

lemma probe_each_last:
  "probe_each P s (pre @ [x]) = (rs @ [Some r], s') \<Longrightarrow> length rs = length pre \<Longrightarrow>
   \<exists>s0. P x s0 = (Some r, s')"
proof (induction pre arbitrary: s rs)
  case Nil
  then show ?case by (auto split: prod.splits)
next
  case (Cons y pre)
  obtain b s1 where pr: "P y s = (b, s1)" by (cases "P y s") auto
  obtain cs s2 where pa: "probe_each P s1 (pre @ [x]) = (cs, s2)"
    by (cases "probe_each P s1 (pre @ [x])") auto
  from Cons.prems(2) obtain b0 rs' where rs: "rs = b0 # rs'" "length rs' = length pre"
    by (cases rs) auto
  from Cons.prems(1) pr pa rs have "probe_each P s1 (pre @ [x]) = (rs' @ [Some r], s')"
    by auto
  from Cons.IH [OF this rs(2)] show ?case .
qed

lemma probe_same_family_found:
  assumes "probe_same_family E s name codepoint = (Some fam, s')"
  shows "first_font_covers E s' fam codepoint"
proof -
  let ?att = "fallbacks_for_key (fallback_map (p_sys s)) FB_LIST_ATTACHMENTS"
  have fs: "first_success (\<lambda>q u. probe_named E u q name codepoint) s ?att
              (SearchFontByFamilyName E s ?att name codepoint)"
    by (rule first_success_loop, simp, rule SearchFontByFamilyName_step)
  obtain r1 s1 where a: "SearchFontByFamilyName E s ?att name codepoint = (r1, s1)"
    by (cases "SearchFontByFamilyName E s ?att name codepoint") auto
  show ?thesis
  proof (cases r1)
    case None
    with a assms have "probe_registry E s1 name codepoint = (Some fam, s')"
      by (simp add: probe_same_family_def)
    from probe_registry_result [OF this] show ?thesis
      by (auto split: option.splits if_splits)
  next
    case (Some p)
    with a assms have eq: "p = fam" "s1 = s'" by (simp_all add: probe_same_family_def)
    from SearchFontByFamilyName_fonts [of E s ?att name codepoint p s1] a Some
    have "p_fonts (family_at s1 p) \<noteq> []" by simp
    from fs a Some obtain pre x post where
      pe: "probe_each (\<lambda>q u. probe_named E u q name codepoint) s (pre @ [x])
             = (replicate (length pre) None @ [Some p], s1)"
      by (auto simp: first_success_def)
    from probe_each_last [OF pe] obtain s0 where
      "probe_named E s0 x name codepoint = (Some p, s1)" by auto
    from probe_named_result [OF this] eq show ?thesis by (auto split: if_splits)
  qed
qed

text \<open>
  Claim C1. For a codepoint that is not 0, \<open>SelectFontWithFamilyFallback\<close> runs four
  searches in order, each from the state the one before left, and the first that finds
  a family ends the search; the result is the file and index of the best font of the
  family found, and every family a search finds has fonts, so the result is a font and
  the default family is not put in its place. When the first three searches find nothing
  and the default list has a family that covers the codepoint, the result is the best
  font of that family; when the four searches find nothing the result is \<^verbatim>\<open>NULL\<close>.

  The four searches are these. Tier 1, \<open>same_family_loop\<close>, is the first success over
  the requested names of \<open>probe_same_family\<close>: for one name, the search of the attachment
  list for a family of that name, and when that finds nothing the family that
  \<open>pf_get_family\<close> gives for the name. The search of the attachment list by name is
  itself the first success over the list of \<open>probe_named\<close>, which takes a family exactly
  when its name is the requested one, case ignored, and its first font has a face with a
  glyph for the codepoint after the probe; the family of \<open>pf_get_family\<close> is taken exactly
  when it covers the codepoint in that sense. Tiers 2 and 4 are \<open>SearchFallbacks\<close> over
  the list the fallback map has under the key of the attachments and under the key of
  the default list. Tier 3, \<open>system_fallbacks\<close>, finds nothing and changes nothing when
  the platform has no \<open>pf_get_fallbacks\<close>; otherwise it is the first success over the
  requested names of \<open>SearchFallbacks\<close> over the list that \<open>pf_get_fallbacks\<close> gives
  for the name, and the family it finds is in that list and covers the codepoint.
\<close>

theorem SelectFontWithFamilyFallback_tiers:
  assumes cp: "codepoint \<noteq> 0"
  shows "SelectFontWithFamilyFallback E s families st codepoint =
           (case same_family_loop E s families codepoint of
              (Some fam, s1) \<Rightarrow> font_of_family E s1 fam st codepoint
            | (None, s1) \<Rightarrow>
           (case search_fallback_list E s1 FB_LIST_ATTACHMENTS codepoint of
              (Some fam, s2) \<Rightarrow> font_of_family E s2 fam st codepoint
            | (None, s2) \<Rightarrow>
           (case system_fallbacks E s2 families codepoint of
              (Some fam, s3) \<Rightarrow> font_of_family E s3 fam st codepoint
            | (None, s3) \<Rightarrow>
           (case search_fallback_list E s3 FB_LIST_DEFAULT codepoint of
              (Some fam, s4) \<Rightarrow> font_of_family E s4 fam st codepoint
            | (None, s4) \<Rightarrow> (None, s4)))))
         \<and> (same_family_loop E s families codepoint = (None, s1)
              \<and> search_fallback_list E s1 FB_LIST_ATTACHMENTS codepoint = (None, s2)
              \<and> system_fallbacks E s2 families codepoint = (None, s3) \<longrightarrow>
              (\<forall>fam s4. search_fallback_list E s3 FB_LIST_DEFAULT codepoint = (Some fam, s4) \<longrightarrow>
                 SelectFontWithFamilyFallback E s families st codepoint
                   = font_of_family E s4 fam st codepoint
                 \<and> (\<exists>file idx. fst (SelectFontWithFamilyFallback E s families st codepoint)
                                  = Some (file, idx)))
              \<and> (\<forall>s4. search_fallback_list E s3 FB_LIST_DEFAULT codepoint = (None, s4) \<longrightarrow>
                 SelectFontWithFamilyFallback E s families st codepoint = (None, s4)))
         \<and> (\<forall>t fam t'.
               same_family_loop E t families codepoint = (Some fam, t')
               \<or> search_fallback_list E t FB_LIST_ATTACHMENTS codepoint = (Some fam, t')
               \<or> system_fallbacks E t families codepoint = (Some fam, t')
               \<or> search_fallback_list E t FB_LIST_DEFAULT codepoint = (Some fam, t') \<longrightarrow>
               (\<exists>file idx. fst (font_of_family E t' fam st codepoint) = Some (file, idx)))
         \<and> first_success (\<lambda>n u. probe_same_family E u n codepoint) t names
               (same_family_loop E t names codepoint)
         \<and> first_success (\<lambda>q u. probe_named E u q n codepoint) t forest
               (SearchFontByFamilyName E t forest n codepoint)
         \<and> (\<forall>r u'. probe_named E u q n codepoint = (r, u') \<longrightarrow>
               r = (if strcasecmp_eq (psz_name (family_at u q)) n
                       \<and> first_font_covers E u' q codepoint then Some q else None))
         \<and> (\<forall>r u'. probe_registry E u n codepoint = (r, u') \<longrightarrow>
               r = (case fst (pf_get_family E n u) of
                      None \<Rightarrow> None
                    | Some fam \<Rightarrow>
                        if first_font_covers E u' fam codepoint then Some fam else None))
         \<and> (\<forall>fam u'. probe_same_family E u n codepoint = (Some fam, u') \<longrightarrow>
               first_font_covers E u' fam codepoint)
         \<and> search_fallback_list E u list_key codepoint
               = SearchFallbacks E u (fallbacks_for_key (fallback_map (p_sys u)) list_key) codepoint
         \<and> (pf_get_fallbacks E = None \<longrightarrow> system_fallbacks E t names codepoint = (None, t))
         \<and> (\<forall>g. pf_get_fallbacks E = Some g \<longrightarrow>
               first_success (\<lambda>n u. probe_system E g u n codepoint) t names
                 (system_fallbacks E t names codepoint))
         \<and> (\<forall>g fam u'. probe_system E g u n codepoint = (Some fam, u') \<longrightarrow>
               fam \<in> set (fst (g n codepoint u)) \<and> first_font_covers E u' fam codepoint)"
proof -
  let ?b = "STYLE_BOLD \<in> i_style_flags st" and ?i = "STYLE_ITALIC \<in> i_style_flags st"
  let ?S = "SelectFontWithFamilyFallback E s families st codepoint"
  have found: "select_best E t (Some fam) ?b ?i codepoint = font_of_family E t fam st codepoint"
    if "search_with_codepoint E s families codepoint = (Some fam, t)" for fam t
  proof -
    from that have "p_fonts (family_at t fam) \<noteq> []"
      by (auto simp: search_with_codepoint_def split: prod.splits option.splits
          dest: same_family_loop_fonts search_fallback_list_fonts system_fallbacks_fonts)
    then show ?thesis by (rule select_best_family_with_fonts)
  qed
  have S: "?S = (case search_with_codepoint E s families codepoint of
                   (None, t) \<Rightarrow> (None, t)
                 | (Some fam, t) \<Rightarrow> font_of_family E t fam st codepoint)"
    using cp found
    by (auto simp: SelectFontWithFamilyFallback_def Let_def split: prod.splits option.splits)
  have eq: "?S =
           (case same_family_loop E s families codepoint of
              (Some fam, s1) \<Rightarrow> font_of_family E s1 fam st codepoint
            | (None, s1) \<Rightarrow>
           (case search_fallback_list E s1 FB_LIST_ATTACHMENTS codepoint of
              (Some fam, s2) \<Rightarrow> font_of_family E s2 fam st codepoint
            | (None, s2) \<Rightarrow>
           (case system_fallbacks E s2 families codepoint of
              (Some fam, s3) \<Rightarrow> font_of_family E s3 fam st codepoint
            | (None, s3) \<Rightarrow>
           (case search_fallback_list E s3 FB_LIST_DEFAULT codepoint of
              (Some fam, s4) \<Rightarrow> font_of_family E s4 fam st codepoint
            | (None, s4) \<Rightarrow> (None, s4)))))"
    unfolding S search_with_codepoint_def
    by (simp split: prod.splits option.splits)
  have some: "\<exists>file idx. fst (font_of_family E t' fam st codepoint) = Some (file, idx)"
    if "same_family_loop E t families codepoint = (Some fam, t')
        \<or> search_fallback_list E t FB_LIST_ATTACHMENTS codepoint = (Some fam, t')
        \<or> system_fallbacks E t families codepoint = (Some fam, t')
        \<or> search_fallback_list E t FB_LIST_DEFAULT codepoint = (Some fam, t')" for t fam t'
  proof -
    from that have "p_fonts (family_at t' fam) \<noteq> []"
      using same_family_loop_fonts search_fallback_list_fonts system_fallbacks_fonts by blast
    then show ?thesis by (rule font_of_family_Some)
  qed
  have four: "same_family_loop E s families codepoint = (None, s1)
              \<and> search_fallback_list E s1 FB_LIST_ATTACHMENTS codepoint = (None, s2)
              \<and> system_fallbacks E s2 families codepoint = (None, s3) \<longrightarrow>
              (\<forall>fam s4. search_fallback_list E s3 FB_LIST_DEFAULT codepoint = (Some fam, s4) \<longrightarrow>
                 ?S = font_of_family E s4 fam st codepoint
                 \<and> (\<exists>file idx. fst ?S = Some (file, idx)))
              \<and> (\<forall>s4. search_fallback_list E s3 FB_LIST_DEFAULT codepoint = (None, s4) \<longrightarrow>
                 ?S = (None, s4))"
  proof (intro impI conjI allI)
    fix fam s4
    assume t: "same_family_loop E s families codepoint = (None, s1)
              \<and> search_fallback_list E s1 FB_LIST_ATTACHMENTS codepoint = (None, s2)
              \<and> system_fallbacks E s2 families codepoint = (None, s3)"
      and d: "search_fallback_list E s3 FB_LIST_DEFAULT codepoint = (Some fam, s4)"
    from t d show e: "?S = font_of_family E s4 fam st codepoint" unfolding eq by simp
    from some [of s3 fam s4] d show "\<exists>file idx. fst ?S = Some (file, idx)" unfolding e by blast
  next
    fix s4
    assume t: "same_family_loop E s families codepoint = (None, s1)
              \<and> search_fallback_list E s1 FB_LIST_ATTACHMENTS codepoint = (None, s2)
              \<and> system_fallbacks E s2 families codepoint = (None, s3)"
      and d: "search_fallback_list E s3 FB_LIST_DEFAULT codepoint = (None, s4)"
    from t d show "?S = (None, s4)" unfolding eq by simp
  qed
  have found_font: "\<forall>t fam t'.
               same_family_loop E t families codepoint = (Some fam, t')
               \<or> search_fallback_list E t FB_LIST_ATTACHMENTS codepoint = (Some fam, t')
               \<or> system_fallbacks E t families codepoint = (Some fam, t')
               \<or> search_fallback_list E t FB_LIST_DEFAULT codepoint = (Some fam, t') \<longrightarrow>
               (\<exists>file idx. fst (font_of_family E t' fam st codepoint) = Some (file, idx))"
    by (intro allI impI) (erule some)
  have tier1: "first_success (\<lambda>n u. probe_same_family E u n codepoint) t names
               (same_family_loop E t names codepoint)"
    by (rule first_success_loop, simp, rule same_family_loop_step)
  have byname: "first_success (\<lambda>q u. probe_named E u q n codepoint) t forest
               (SearchFontByFamilyName E t forest n codepoint)"
    by (rule first_success_loop, simp, rule SearchFontByFamilyName_step)
  have named: "\<forall>r u'. probe_named E u q n codepoint = (r, u') \<longrightarrow>
               r = (if strcasecmp_eq (psz_name (family_at u q)) n
                       \<and> first_font_covers E u' q codepoint then Some q else None)"
    by (intro allI impI) (erule probe_named_result)
  have registry: "\<forall>r u'. probe_registry E u n codepoint = (r, u') \<longrightarrow>
               r = (case fst (pf_get_family E n u) of
                      None \<Rightarrow> None
                    | Some fam \<Rightarrow>
                        if first_font_covers E u' fam codepoint then Some fam else None)"
    by (intro allI impI) (erule probe_registry_result)
  have same: "\<forall>fam u'. probe_same_family E u n codepoint = (Some fam, u') \<longrightarrow>
               first_font_covers E u' fam codepoint"
    by (intro allI impI) (erule probe_same_family_found)
  have lists: "search_fallback_list E u list_key codepoint
               = SearchFallbacks E u (fallbacks_for_key (fallback_map (p_sys u)) list_key) codepoint"
    by (simp add: search_fallback_list_def Let_def)
  have nofb: "pf_get_fallbacks E = None \<longrightarrow> system_fallbacks E t names codepoint = (None, t)"
    by (simp add: system_fallbacks_def)
  have tier3: "\<forall>g. pf_get_fallbacks E = Some g \<longrightarrow>
               first_success (\<lambda>n u. probe_system E g u n codepoint) t names
                 (system_fallbacks E t names codepoint)"
  proof (intro allI impI)
    fix g
    assume g: "pf_get_fallbacks E = Some g"
    have "first_success (\<lambda>n u. probe_system E g u n codepoint) t names
            (system_fallbacks_loop E g t names codepoint)"
      by (rule first_success_loop, simp, rule system_fallbacks_loop_step)
    then show "first_success (\<lambda>n u. probe_system E g u n codepoint) t names
                 (system_fallbacks E t names codepoint)"
      using g by (simp add: system_fallbacks_def)
  qed
  have sys: "\<forall>g fam u'. probe_system E g u n codepoint = (Some fam, u') \<longrightarrow>
               fam \<in> set (fst (g n codepoint u)) \<and> first_font_covers E u' fam codepoint"
    by (intro allI impI) (erule probe_system_found)
  show ?thesis
    by (intro conjI)
       (fact eq four found_font tier1 byname named registry same lists nofb tier3 sys)+
qed


theorem SelectFontWithFamilyFallback_tiers_witness:
  "(let fams = [''Regal'', ''nowhere''];
        s1 = snd (same_family_loop ex_env ex_state fams 0x42);
        s2 = snd (search_fallback_list ex_env s1 FB_LIST_ATTACHMENTS 0x42);
        s3 = snd (system_fallbacks ex_env s2 fams 0x42)
    in fst (same_family_loop ex_env ex_state fams 0x42) = None
       \<and> fst (search_fallback_list ex_env s1 FB_LIST_ATTACHMENTS 0x42) = None
       \<and> fst (system_fallbacks ex_env s2 fams 0x42) = None
       \<and> fst (search_fallback_list ex_env s3 FB_LIST_DEFAULT 0x42) = Some 3
       \<and> fst (SelectFontWithFamilyFallback ex_env ex_state fams ex_style 0x42) \<noteq> None
       \<and> fst (SelectFontWithFamilyFallback ex_env ex_state fams ex_style 0x42)
           = Some (''d.ttf'', 0)
       \<and> fst (search_fallback_list ex_env
                 (snd (system_fallbacks ex_env
                   (snd (search_fallback_list ex_env
                     (snd (same_family_loop ex_env ex_state fams 0x41))
                     FB_LIST_ATTACHMENTS 0x41)) fams 0x41)) FB_LIST_DEFAULT 0x41) = None
       \<and> fst (SelectFontWithFamilyFallback ex_env ex_state fams ex_style 0x41) = None)
   \<and> fst (same_family_loop ex_env ex_state_attachments [''embed''] 0x41) = Some 8
   \<and> first_font_covers ex_env
         (snd (probe_same_family ex_env ex_state_attachments ''embed'' 0x41)) 8 0x41
   \<and> fst (SelectFontWithFamilyFallback ex_env ex_state_attachments [''embed''] ex_style 0x41)
       = Some (''i.ttf'', 0)
   \<and> first_success (\<lambda>n u. probe_same_family ex_env u n 0x43) ex_state_attachments
         [''nowhere'', ''Regal'']
         (same_family_loop ex_env ex_state_attachments [''nowhere'', ''Regal''] 0x43)
   \<and> fst (probe_same_family ex_env ex_state_attachments ''nowhere'' 0x43) = None
   \<and> fst (same_family_loop ex_env ex_state_attachments [''nowhere'', ''Regal''] 0x43) = Some 1
   \<and> fst (SelectFontWithFamilyFallback ex_env ex_state_attachments [''nowhere'', ''Regal'']
            ex_style 0x43) = Some (''r.ttf'', 0)
   \<and> fst (same_family_loop ex_env ex_state_attachments [''nowhere''] 0x42) = None
   \<and> fst (search_fallback_list ex_env
            (snd (same_family_loop ex_env ex_state_attachments [''nowhere''] 0x42))
            FB_LIST_ATTACHMENTS 0x42) = Some 9
   \<and> fst (SelectFontWithFamilyFallback ex_env ex_state_attachments [''nowhere''] ex_style 0x42)
       = Some (''d.ttf'', 0)
   \<and> p_face (font_at (snd (SelectFontWithFamilyFallback ex_env ex_state_attachments
                               [''nowhere''] ex_style 0x42)) 20) = None
   \<and> pf_get_fallbacks ex_env_fallbacks = Some ex_fallbacks
   \<and> fst (same_family_loop ex_env_fallbacks ex_state [''Regal'', ''nowhere''] 0x42) = None
   \<and> first_success (\<lambda>n u. probe_system ex_env_fallbacks ex_fallbacks u n 0x42)
         (snd (same_family_loop ex_env_fallbacks ex_state [''Regal'', ''nowhere''] 0x42))
         [''Regal'', ''nowhere'']
         (system_fallbacks ex_env_fallbacks
            (snd (same_family_loop ex_env_fallbacks ex_state [''Regal'', ''nowhere''] 0x42))
            [''Regal'', ''nowhere''] 0x42)
   \<and> fst (system_fallbacks ex_env_fallbacks
            (snd (same_family_loop ex_env_fallbacks ex_state [''Regal'', ''nowhere''] 0x42))
            [''Regal'', ''nowhere''] 0x42) = Some 6
   \<and> fst (SelectFontWithFamilyFallback ex_env_fallbacks ex_state [''Regal'', ''nowhere'']
            ex_style 0x42) = Some (''d.ttf'', 0)
   \<and> p_face (font_at (snd (SelectFontWithFamilyFallback ex_env_fallbacks ex_state
                               [''Regal'', ''nowhere''] ex_style 0x42)) 20) = None"
proof -
  let ?fams = "[''Regal'', ''nowhere'']"
  let ?t1 = "same_family_loop ex_env ex_state ?fams 0x42"
  let ?t2 = "search_fallback_list ex_env (snd ?t1) FB_LIST_ATTACHMENTS 0x42"
  let ?t3 = "system_fallbacks ex_env (snd ?t2) ?fams 0x42"
  let ?t4 = "search_fallback_list ex_env (snd ?t3) FB_LIST_DEFAULT 0x42"
  let ?S = "SelectFontWithFamilyFallback ex_env ex_state ?fams ex_style 0x42"
  have r1: "fst ?t1 = None" by code_simp
  have r2: "fst ?t2 = None" by code_simp
  have r3: "fst ?t3 = None" by code_simp
  have r4: "fst ?t4 = Some 3" by code_simp
  have e1: "?t1 = (None, snd ?t1)" using r1 by (metis prod.collapse)
  have e2: "?t2 = (None, snd ?t2)" using r2 by (metis prod.collapse)
  have e3: "?t3 = (None, snd ?t3)" using r3 by (metis prod.collapse)
  have e4: "?t4 = (Some 3, snd ?t4)" using r4 by (metis prod.collapse)
  have cp: "(0x42 :: uni_char_t) \<noteq> 0" by simp
  note inst = SelectFontWithFamilyFallback_tiers
    [OF cp, where E = ex_env and s = ex_state and families = ?fams and st = ex_style
       and ?s1.0 = "snd ?t1" and ?s2.0 = "snd ?t2" and ?s3.0 = "snd ?t3",
     THEN conjunct2, THEN conjunct1, THEN mp, OF conjI [OF e1 conjI [OF e2 e3]],
     THEN conjunct1, THEN spec, THEN spec, THEN mp, OF e4]
  from inst have "\<exists>file idx. fst ?S = Some (file, idx)" by (rule conjunct2)
  then have some: "fst ?S \<noteq> None" by auto
  have S: "fst ?S = Some (''d.ttf'', 0)" by code_simp
  let ?u1 = "same_family_loop ex_env ex_state ?fams 0x41"
  let ?u2 = "search_fallback_list ex_env (snd ?u1) FB_LIST_ATTACHMENTS 0x41"
  let ?u3 = "system_fallbacks ex_env (snd ?u2) ?fams 0x41"
  let ?u4 = "search_fallback_list ex_env (snd ?u3) FB_LIST_DEFAULT 0x41"
  have n4: "fst ?u4 = None" by code_simp
  have N: "fst (SelectFontWithFamilyFallback ex_env ex_state ?fams ex_style 0x41) = None"
    by code_simp
  have four: "(let fams = ?fams;
        s1 = snd (same_family_loop ex_env ex_state fams 0x42);
        s2 = snd (search_fallback_list ex_env s1 FB_LIST_ATTACHMENTS 0x42);
        s3 = snd (system_fallbacks ex_env s2 fams 0x42)
    in fst (same_family_loop ex_env ex_state fams 0x42) = None
       \<and> fst (search_fallback_list ex_env s1 FB_LIST_ATTACHMENTS 0x42) = None
       \<and> fst (system_fallbacks ex_env s2 fams 0x42) = None
       \<and> fst (search_fallback_list ex_env s3 FB_LIST_DEFAULT 0x42) = Some 3
       \<and> fst (SelectFontWithFamilyFallback ex_env ex_state fams ex_style 0x42) \<noteq> None
       \<and> fst (SelectFontWithFamilyFallback ex_env ex_state fams ex_style 0x42)
           = Some (''d.ttf'', 0)
       \<and> fst (search_fallback_list ex_env
                 (snd (system_fallbacks ex_env
                   (snd (search_fallback_list ex_env
                     (snd (same_family_loop ex_env ex_state fams 0x41))
                     FB_LIST_ATTACHMENTS 0x41)) fams 0x41)) FB_LIST_DEFAULT 0x41) = None
       \<and> fst (SelectFontWithFamilyFallback ex_env ex_state fams ex_style 0x41) = None)"
    unfolding Let_def by (intro conjI) (fact r1 r2 r3 r4 some S n4 N)+
  have cpA: "(0x41 :: uni_char_t) \<noteq> 0" and cpC: "(0x43 :: uni_char_t) \<noteq> 0" by simp_all
  let ?A = ex_state_attachments
  have a1: "fst (same_family_loop ex_env ?A [''embed''] 0x41) = Some 8" by code_simp
  have pa: "fst (probe_same_family ex_env ?A ''embed'' 0x41) = Some 8" by code_simp
  then have pa': "probe_same_family ex_env ?A ''embed'' 0x41
                  = (Some 8, snd (probe_same_family ex_env ?A ''embed'' 0x41))"
    by (metis prod.collapse)
  note same = SelectFontWithFamilyFallback_tiers
    [OF cpA, where E = ex_env and u = ?A and n = "''embed''",
     THEN conjunct2, THEN conjunct2, THEN conjunct2, THEN conjunct2, THEN conjunct2,
     THEN conjunct2, THEN conjunct2, THEN conjunct1, THEN spec, THEN spec, THEN mp, OF pa']
  have a2: "fst (SelectFontWithFamilyFallback ex_env ?A [''embed''] ex_style 0x41)
            = Some (''i.ttf'', 0)" by code_simp
  note tier1 = SelectFontWithFamilyFallback_tiers
    [OF cpC, where E = ex_env and t = ?A and names = "[''nowhere'', ''Regal'']",
     THEN conjunct2, THEN conjunct2, THEN conjunct2, THEN conjunct1]
  have b0: "fst (probe_same_family ex_env ?A ''nowhere'' 0x43) = None" by code_simp
  have b1: "fst (same_family_loop ex_env ?A [''nowhere'', ''Regal''] 0x43) = Some 1"
    by code_simp
  have b2: "fst (SelectFontWithFamilyFallback ex_env ?A [''nowhere'', ''Regal''] ex_style 0x43)
            = Some (''r.ttf'', 0)" by code_simp
  have c1: "fst (same_family_loop ex_env ?A [''nowhere''] 0x42) = None" by code_simp
  have c2: "fst (search_fallback_list ex_env
                  (snd (same_family_loop ex_env ?A [''nowhere''] 0x42))
                  FB_LIST_ATTACHMENTS 0x42) = Some 9" by code_simp
  have c3: "fst (SelectFontWithFamilyFallback ex_env ?A [''nowhere''] ex_style 0x42)
            = Some (''d.ttf'', 0)" by code_simp
  have c4: "p_face (font_at (snd (SelectFontWithFamilyFallback ex_env ?A
                               [''nowhere''] ex_style 0x42)) 20) = None" by code_simp
  have g: "pf_get_fallbacks ex_env_fallbacks = Some ex_fallbacks"
    by (simp add: ex_env_fallbacks_def)
  let ?v1 = "same_family_loop ex_env_fallbacks ex_state ?fams 0x42"
  have d1: "fst ?v1 = None" by code_simp
  note tier3 = SelectFontWithFamilyFallback_tiers
    [OF cp, where E = ex_env_fallbacks and t = "snd ?v1" and names = ?fams,
     THEN conjunct2, THEN conjunct2, THEN conjunct2, THEN conjunct2, THEN conjunct2,
     THEN conjunct2, THEN conjunct2, THEN conjunct2, THEN conjunct2, THEN conjunct2,
     THEN conjunct1, THEN spec, THEN mp, OF g]
  have d2: "fst (system_fallbacks ex_env_fallbacks (snd ?v1) ?fams 0x42) = Some 6"
    by code_simp
  have d3: "fst (SelectFontWithFamilyFallback ex_env_fallbacks ex_state ?fams ex_style 0x42)
            = Some (''d.ttf'', 0)" by code_simp
  have d4: "p_face (font_at (snd (SelectFontWithFamilyFallback ex_env_fallbacks ex_state
                               ?fams ex_style 0x42)) 20) = None" by code_simp
  show ?thesis
    by (intro conjI)
       (fact four a1 same a2 tier1 b0 b1 b2 c1 c2 c3 c4 g d1 tier3 d2 d3 d4)+
qed
text \<open>
  Claim C2, as the code has it. For a request without a codepoint (codepoint 0) the
  requested families are not looked at: \<open>SelectFontWithFamilyFallback\<close> asks
  \<open>pf_get_family\<close> for the default family and returns the file and index of the best
  font of that family for the style, or \<^verbatim>\<open>NULL\<close> when the default family is not found
  or has no font. The result is the same for every list of requested families, so a
  request for an unknown family gets the default family, and so does a request for a
  family that is known.
\<close>

theorem SelectFontWithFamilyFallback_no_codepoint:
  "SelectFontWithFamilyFallback E s families st 0 =
     (case pf_get_family E (DEFAULT_FAMILY E) s of
        (None, s1) \<Rightarrow> (None, s1)
      | (Some fam, s1) \<Rightarrow> font_of_family E s1 fam st 0)
   \<and> SelectFontWithFamilyFallback E s families st 0
       = SelectFontWithFamilyFallback E s families' st 0
   \<and> (\<forall>fam s1. pf_get_family E (DEFAULT_FAMILY E) s = (Some fam, s1)
          \<and> p_fonts (family_at s1 fam) \<noteq> [] \<longrightarrow>
          (\<exists>file idx. fst (SelectFontWithFamilyFallback E s families st 0) = Some (file, idx)))"
proof -
  have eq: "SelectFontWithFamilyFallback E s fs st 0 =
     (case pf_get_family E (DEFAULT_FAMILY E) s of
        (None, s1) \<Rightarrow> (None, s1)
      | (Some fam, s1) \<Rightarrow> font_of_family E s1 fam st 0)" for fs
    by (simp add: SelectFontWithFamilyFallback_def select_best_def font_of_family_def Let_def
        split: prod.splits option.splits)
  have some: "\<exists>file idx. fst (SelectFontWithFamilyFallback E s families st 0) = Some (file, idx)"
    if "pf_get_family E (DEFAULT_FAMILY E) s = (Some fam, s1) \<and> p_fonts (family_at s1 fam) \<noteq> []"
    for fam s1
    using that font_of_family_Some [of s1 fam E st 0] by (simp add: eq)
  from eq [of families] eq [of families'] some show ?thesis by auto
qed

theorem SelectFontWithFamilyFallback_no_codepoint_witness:
  "pf_get_family ex_env (DEFAULT_FAMILY ex_env) ex_state = (Some 2, ex_state)
   \<and> p_fonts (family_at ex_state 2) = [20]
   \<and> fst (pf_get_family ex_env ''nowhere'' ex_state) = None
   \<and> fst (SelectFontWithFamilyFallback ex_env ex_state [''nowhere''] ex_style 0)
       = Some (''d.ttf'', 0)
   \<and> SelectFontWithFamilyFallback ex_env ex_state [''nowhere''] ex_style 0
       = SelectFontWithFamilyFallback ex_env ex_state [''regal''] ex_style 0"
proof -
  have d: "pf_get_family ex_env (DEFAULT_FAMILY ex_env) ex_state = (Some 2, ex_state)"
    by (simp add: ex_env_def ex_registry_def strcasecmp_eq_def tolower_def)
  have fonts: "p_fonts (family_at ex_state 2) = [20]"
    by (simp add: ex_state_def ex_families_def)
  have unknown: "fst (pf_get_family ex_env ''nowhere'' ex_state) = None"
    by (simp add: ex_env_def ex_registry_def strcasecmp_eq_def tolower_def)
  note inst = SelectFontWithFamilyFallback_no_codepoint
    [of ex_env ex_state "[''nowhere'']" ex_style "[''regal'']"]
  have same: "SelectFontWithFamilyFallback ex_env ex_state [''nowhere''] ex_style 0
       = SelectFontWithFamilyFallback ex_env ex_state [''regal''] ex_style 0"
    using inst by (rule conjunct2 [THEN conjunct1])
  have r: "fst (SelectFontWithFamilyFallback ex_env ex_state [''nowhere''] ex_style 0)
       = Some (''d.ttf'', 0)"
    by code_simp
  show ?thesis by (intro conjI) (fact d fonts unknown r same)+
qed

text \<open>
  The claim as the specification states it, that the family of the first requested name
  is used when it resolves, fails: the registry of the example knows the family
  \<^verbatim>\<open>regal\<close>, whose best font for the plain style is \<^verbatim>\<open>r.ttf\<close>, and the request for
  \<^verbatim>\<open>regal\<close> without a codepoint gets \<^verbatim>\<open>d.ttf\<close> of the default family.
\<close>

theorem SelectFontWithFamilyFallback_first_family_counterexample:
  "fst (pf_get_family ex_env ''regal'' ex_state) = Some 1
   \<and> fst (font_of_family ex_env ex_state 1 ex_style 0) = Some (''r.ttf'', 0)
   \<and> fst (SelectFontWithFamilyFallback ex_env ex_state [''regal''] ex_style 0)
       = Some (''d.ttf'', 0)
   \<and> fst (SelectFontWithFamilyFallback ex_env ex_state [''regal''] ex_style 0)
       \<noteq> fst (font_of_family ex_env ex_state 1 ex_style 0)"
  by code_simp

section \<open>The family specification parser\<close>

subsection \<open>The parser in terms of lists\<close>

lemma trim_start_eq:
  "pp \<le> ppend \<Longrightarrow> ppend \<le> length buf \<Longrightarrow>
   trim_start buf pp ppend = pp + length (takeWhile spec_is_blank (drop pp (take ppend buf)))"
proof (induction buf pp ppend rule: trim_start.induct)
  case (1 buf pp ppend)
  show ?case
  proof (cases "pp < ppend")
    case False
    with "1.prems" show ?thesis by (subst trim_start.simps) simp
  next
    case True
    with "1.prems" have len: "pp < length (take ppend buf)" by simp
    then have split: "drop pp (take ppend buf) = buf ! pp # drop (Suc pp) (take ppend buf)"
      using Cons_nth_drop_Suc [OF len] True by simp
    show ?thesis
    proof (cases "spec_is_blank (buf ! pp)")
      case False
      with True split show ?thesis
        by (subst trim_start.simps) (simp add: spec_is_blank_def)
    next
      case blank: True
      then have nb: "\<not> (buf ! pp \<noteq> CHR '' '' \<and> buf ! pp \<noteq> CHR 0x09)"
        by (simp add: spec_is_blank_def)
      from "1.IH" [OF True nb] True "1.prems"
      have "trim_start buf (Suc pp) ppend
            = Suc pp + length (takeWhile spec_is_blank (drop (Suc pp) (take ppend buf)))"
        by simp
      with True nb blank split show ?thesis
        by (subst trim_start.simps) simp
    qed
  qed
qed

lemma trim_end_eq:
  "pp \<le> ppend \<Longrightarrow> ppend \<le> length buf \<Longrightarrow>
   trim_end buf pp ppend
     = ppend - length (takeWhile spec_is_blank (rev (drop pp (take ppend buf))))"
proof (induction buf pp ppend rule: trim_end.induct)
  case (1 buf pp ppend)
  show ?case
  proof (cases "pp < ppend")
    case False
    with "1.prems" show ?thesis by (subst trim_end.simps) simp
  next
    case True
    then obtain e where e: "ppend = Suc e" by (cases ppend) auto
    with "1.prems" have elen: "e < length buf" by simp
    have "take ppend buf = take e buf @ [buf ! e]"
      unfolding e using elen by (rule take_Suc_conv_app_nth)
    moreover have "pp \<le> length (take e buf)" using True e elen by simp
    ultimately have split: "rev (drop pp (take ppend buf)) = buf ! e # rev (drop pp (take e buf))"
      by simp
    show ?thesis
    proof (cases "spec_is_blank (buf ! e)")
      case False
      with True split e show ?thesis
        by (subst trim_end.simps) (simp add: spec_is_blank_def)
    next
      case blank: True
      then have nb: "\<not> (buf ! (ppend - 1) \<noteq> CHR '' '' \<and> buf ! (ppend - 1) \<noteq> CHR 0x09)"
        by (simp add: spec_is_blank_def e)
      have gt: "ppend > pp" using True .
      from "1.IH" [OF gt nb] True "1.prems" e
      have ih: "trim_end buf pp e
            = e - length (takeWhile spec_is_blank (rev (drop pp (take e buf))))"
        by simp
      have le: "length (takeWhile spec_is_blank (rev (drop pp (take e buf)))) \<le> e"
        using length_takeWhile_le [of spec_is_blank "rev (drop pp (take e buf))"] elen by simp
      have "trim_end buf pp ppend = trim_end buf pp e"
        using gt nb e by (subst trim_end.simps) auto
      with ih split blank e le show ?thesis by simp
    qed
  qed
qed

lemma rev_dropWhile_rev:
  "rev (dropWhile P (rev xs)) = take (length xs - length (takeWhile P (rev xs))) xs"
proof -
  have "dropWhile P (rev xs) = drop (length (takeWhile P (rev xs))) (rev xs)"
    by (rule dropWhile_eq_drop)
  then show ?thesis by (simp add: rev_drop)
qed

lemma TrimWhiteSpace_eq:
  assumes "TrimWhiteSpace buf 0 (length buf) = (start1, end1)"
  shows "start1 \<le> end1 \<and> end1 \<le> length buf
         \<and> take (end1 - start1) (drop start1 buf) = spec_trim buf"
proof -
  let ?a = "length (takeWhile spec_is_blank buf)"
  from assms have s0: "start1 = trim_start buf 0 (length buf)"
    and e0: "end1 = trim_end buf start1 (length buf)"
    by (auto simp: TrimWhiteSpace_def Let_def)
  have s: "start1 = ?a"
    unfolding s0 using trim_start_eq [of 0 "length buf" buf] by simp
  have a_le: "?a \<le> length buf" by (rule length_takeWhile_le)
  have e: "end1 = length buf - length (takeWhile spec_is_blank (rev (drop ?a buf)))"
    unfolding e0 s using trim_end_eq [OF a_le le_refl] by simp
  have dw: "dropWhile spec_is_blank buf = drop ?a buf" by (rule dropWhile_eq_drop)
  let ?k = "length (takeWhile spec_is_blank (rev (drop ?a buf)))"
  have k_le: "?k \<le> length buf - ?a"
    using length_takeWhile_le [of spec_is_blank "rev (drop ?a buf)"] by simp
  have "spec_trim buf = take (length (drop ?a buf) - ?k) (drop ?a buf)"
    unfolding spec_trim_def dw by (rule rev_dropWhile_rev)
  also have "length (drop ?a buf) - ?k = end1 - start1" using s e k_le a_le by simp
  finally have "take (end1 - start1) (drop start1 buf) = spec_trim buf" using s by simp
  moreover have "start1 \<le> end1" using s e k_le a_le by linarith
  moreover have "end1 \<le> length buf" using e by simp
  ultimately show ?thesis by simp
qed

lemma AddSingleFamily_eq:
  "AddSingleFamily buf 0 (length buf) fams =
     fams @ (if code_unquote (spec_trim buf) = [] then []
             else [code_unquote (spec_trim buf)])"
proof -
  obtain start1 end1 where tw: "TrimWhiteSpace buf 0 (length buf) = (start1, end1)"
    by (cases "TrimWhiteSpace buf 0 (length buf)") auto
  from TrimWhiteSpace_eq [OF tw] have le: "start1 \<le> end1" "end1 \<le> length buf"
    and t: "take (end1 - start1) (drop start1 buf) = spec_trim buf" by simp_all
  let ?t = "spec_trim buf"
  let ?n = "end1 - start1"
  have len: "length ?t = ?n" using le by (simp add: t [symmetric])
  show ?thesis
  proof (cases "end1 > start1")
    case False
    with len have "?t = []" by simp
    with False tw show ?thesis by (simp add: AddSingleFamily_def Let_def code_unquote_def)
  next
    case True
    with len have ne: "?t \<noteq> []" by auto
    have a: "start1 < length buf" using True le by simp
    have hd: "buf ! start1 = hd ?t"
      using True a by (simp add: t [symmetric] hd_drop_conv_nth)
    have "last ?t = ?t ! (?n - 1)" using ne len by (simp add: last_conv_nth)
    also have "\<dots> = buf ! (end1 - 1)"
      using True le by (simp add: t [symmetric])
    finally have last: "buf ! (end1 - 1) = last ?t" by simp
    show ?thesis
    proof (cases "hd ?t = CHR 0x22 \<and> last ?t = CHR 0x22")
      case False
      with True tw hd last ne t show ?thesis
        by (auto simp: AddSingleFamily_def Let_def strndup_from_def code_unquote_def)
    next
      case quoted: True
      have tl: "tl ?t = take (?n - 1) (drop (Suc start1) buf)"
        by (simp add: t [symmetric] tl_take tl_drop drop_Suc)
      have "?n - 1 \<le> length (drop (Suc start1) buf)" using le True by simp
      then have bl: "butlast (tl ?t) = take (?n - 2) (drop (Suc start1) buf)"
        unfolding tl by (simp add: butlast_take)
      have blen: "length (butlast (tl ?t)) = ?n - 2" using len by simp
      show ?thesis
      proof (cases "end1 - 1 > start1 + 1")
        case long: True
        then have "?n - 2 > 0" by simp
        with blen have "butlast (tl ?t) \<noteq> []" by (metis length_greater_0_conv)
        moreover have "end1 - 1 - (start1 + 1) = ?n - 2" by simp
        ultimately show ?thesis
          using True tw hd last ne quoted long bl
          by (simp add: AddSingleFamily_def Let_def strndup_from_def code_unquote_def)
      next
        case short: False
        then have "?n - 2 = 0" by simp
        with blen have "butlast (tl ?t) = []" by (metis length_0_conv)
        then show ?thesis
          using True tw hd last ne quoted short
          by (simp add: AddSingleFamily_def Let_def code_unquote_def)
      qed
    qed
  qed
qed


lemma spec_split_commas_unfold:
  "spec_split_commas s =
     takeWhile (\<lambda>c. c \<noteq> CHR '','') s
       # (case dropWhile (\<lambda>c. c \<noteq> CHR '','') s of [] \<Rightarrow> [] | c # r \<Rightarrow> spec_split_commas r)"
proof (induction s)
  case Nil
  show ?case by simp
next
  case (Cons c cs)
  show ?case
  proof (cases "c = CHR '',''")
    case True
    then show ?thesis by simp
  next
    case False
    then show ?thesis by (subst spec_split_commas.simps) (simp add: Cons.IH)
  qed
qed

lemma spec_split_commas_leading:
  "spec_split_commas s =
     replicate (length (takeWhile (\<lambda>c. c = CHR '','') s)) []
       @ spec_split_commas (dropWhile (\<lambda>c. c = CHR '','') s)"
  by (induction s) auto

lemma parsed_tokens_simps:
  "parsed_tokens [] = []"
  "parsed_tokens ([] # toks) = parsed_tokens toks"
  "parsed_tokens (replicate k [] @ toks) = parsed_tokens toks"
  "parsed_tokens (t # toks) =
     (if code_unquote (spec_trim t) = [] then [] else [code_unquote (spec_trim t)])
       @ parsed_tokens toks"
  by (induction k) (auto simp: parsed_tokens_def spec_trim_def code_unquote_def)

lemma split_loop_eq:
  "split_loop save fams = fams @ parsed_tokens (spec_split_commas save)"
proof (induction save fams rule: split_loop.induct)
  case (1 save families)
  let ?s1 = "dropWhile (\<lambda>c. c = CHR '','') save"
  have lead: "parsed_tokens (spec_split_commas save) = parsed_tokens (spec_split_commas ?s1)"
    by (subst spec_split_commas_leading) (simp add: parsed_tokens_simps)
  show ?case
  proof (cases "?s1 = []")
    case True
    then have "strtok_r save '','' = None" by (simp add: strtok_r_def)
    then have "split_loop save families = families" by (subst split_loop.simps) simp
    moreover have "parsed_tokens (spec_split_commas ?s1) = []"
      by (simp only: True spec_split_commas.simps parsed_tokens_simps(1,2))
    ultimately show ?thesis using lead by simp
  next
    case False
    let ?psz = "takeWhile (\<lambda>c. c \<noteq> CHR '','') ?s1"
    let ?after = "dropWhile (\<lambda>c. c \<noteq> CHR '','') ?s1"
    let ?save' = "drop 1 ?after"
    have tok: "strtok_r save '','' = Some (?psz, ?save')"
      using False by (simp add: strtok_r_def Let_def)
    then have step: "split_loop save families
        = split_loop ?save' (AddSingleFamily ?psz 0 (length ?psz) families)"
      by (subst split_loop.simps) simp
    have ih: "split_loop ?save' (AddSingleFamily ?psz 0 (length ?psz) families)
        = AddSingleFamily ?psz 0 (length ?psz) families
            @ parsed_tokens (spec_split_commas ?save')"
      using "1.IH" [OF tok refl] by simp
    have toks: "parsed_tokens (spec_split_commas ?s1)
        = (if code_unquote (spec_trim ?psz) = [] then [] else [code_unquote (spec_trim ?psz)])
            @ parsed_tokens (spec_split_commas ?save')"
    proof (cases ?after)
      case Nil
      have one: "spec_split_commas ?s1 = [?psz]"
        by (subst spec_split_commas_unfold) (simp only: Nil list.case)
      have none: "parsed_tokens (spec_split_commas ?save') = []"
        unfolding Nil by (simp add: parsed_tokens_def spec_trim_def code_unquote_def)
      show ?thesis
        unfolding one none by (simp only: parsed_tokens_simps(1,4))
    next
      case (Cons c r)
      then show ?thesis
        by (subst spec_split_commas_unfold) (simp add: parsed_tokens_simps)
    qed
    show ?thesis
      unfolding step ih lead toks by (simp add: AddSingleFamily_eq)
  qed
qed

lemma code_unquote_spec_unquote:
  "t \<noteq> [CHR 0x22] \<Longrightarrow> code_unquote t = spec_unquote t"
proof -
  assume ne: "t \<noteq> [CHR 0x22]"
  show ?thesis
  proof (cases "2 \<le> length t")
    case True
    then have "t \<noteq> []" by auto
    with True show ?thesis by (simp add: code_unquote_def spec_unquote_def)
  next
    case False
    then have "t = [] \<or> (\<exists>c. t = [c])"
      by (cases t) (auto simp: not_le)
    with ne False show ?thesis by (auto simp: code_unquote_def spec_unquote_def)
  qed
qed

lemma SplitIntoSingleFamily_agrees:
  assumes "\<forall>t \<in> set (spec_split_commas s). spec_trim t \<noteq> [CHR 0x22]"
  shows "SplitIntoSingleFamily (Some s) fams = fams @ spec_parse s"
proof -
  have m: "map (\<lambda>t. code_unquote (spec_trim t)) (spec_split_commas s)
        = map (\<lambda>t. spec_unquote (spec_trim t)) (spec_split_commas s)"
    using assms by (intro map_cong refl code_unquote_spec_unquote) simp
  have "SplitIntoSingleFamily (Some s) fams
        = fams @ filter (\<lambda>u. u \<noteq> [])
                   (map (\<lambda>t. code_unquote (spec_trim t)) (spec_split_commas s))"
    unfolding SplitIntoSingleFamily_def option.case split_loop_eq parsed_tokens_def ..
  also have "map (\<lambda>t. code_unquote (spec_trim t)) (spec_split_commas s)
        = map (\<lambda>t. spec_unquote (spec_trim t)) (spec_split_commas s)"
    by (rule m)
  finally show ?thesis unfolding spec_parse_def .
qed

subsection \<open>The parser and the specification\<close>

text \<open>
  Claim C6. \<open>spec_parse\<close> is the parser as the claim words it. The code agrees with it
  on every specification that has no token which, once trimmed, is one double quote and
  nothing else (lemma \<open>SplitIntoSingleFamily_agrees\<close>), and the examples of the claim
  hold (lemma \<open>SplitIntoSingleFamily_examples\<close>): the empty specification gives no
  name, the specification \<^verbatim>\<open>A, "B C" ,D\<close> gives A, B C and D, a token of blanks only is
  dropped and a quote without its partner stays in the name. For a token that is one
  double quote and nothing else, the code and the claim differ: \<open>AddSingleFamily\<close> takes
  the one character for the opening and the closing quote (it compares
  \<^verbatim>\<open>*psz_start\<close> and \<^verbatim>\<open>psz_end[-1]\<close> as soon as the token is not empty), moves the start
  past the end and pushes nothing, where the claim keeps a quote that has no partner as
  a literal character.
\<close>

theorem SplitIntoSingleFamily_lone_quote:
  "SplitIntoSingleFamily (Some [CHR 0x22]) [] = []
   \<and> spec_parse [CHR 0x22] = [[CHR 0x22]]
   \<and> SplitIntoSingleFamily (Some (''a, '' @ [CHR 0x22] @ '' ,b'')) [] = [''a'', ''b'']
   \<and> spec_parse (''a, '' @ [CHR 0x22] @ '' ,b'') = [''a'', [CHR 0x22], ''b'']"
  by code_simp

lemma SplitIntoSingleFamily_examples:
  "SplitIntoSingleFamily (Some []) [] = []
   \<and> SplitIntoSingleFamily None [] = []
   \<and> SplitIntoSingleFamily (Some (''A, '' @ [CHR 0x22] @ ''B C'' @ [CHR 0x22] @ '' ,D'')) []
       = [''A'', ''B C'', ''D'']
   \<and> SplitIntoSingleFamily (Some (''A,  '' @ [CHR 0x09] @ '' ,,B'')) [] = [''A'', ''B'']
   \<and> SplitIntoSingleFamily (Some ([CHR 0x22] @ ''A,B'' @ [CHR 0x22])) []
       = [[CHR 0x22] @ ''A'', ''B'' @ [CHR 0x22]]
   \<and> SplitIntoSingleFamily (Some ([CHR 0x22, CHR 0x22] @ '',C'')) [] = [''C'']"
  by code_simp

end
